theory Spec2Isabelle
  imports Main "HOL-Library.Word"
begin

section \<open>The two byte streams of the codec\<close>

text \<open>
  \<^verbatim>\<open>encode\<close> and \<^verbatim>\<open>decode\<close> of \<^verbatim>\<open>rle.c\<close> work on two \<^verbatim>\<open>FILE *\<close> streams and
  on \<^verbatim>\<open>stderr\<close>. The streams are modelled by one record that is passed through every call:
  \<^item> \<open>fin_data\<close> are the bytes the source still delivers; when they are used up the next
    \<^verbatim>\<open>fgetc\<close> returns \<^verbatim>\<open>EOF\<close>, as end of file when \<open>fin_bad\<close> is false and as a read
    error (which sets the error indicator \<open>fin_err\<close>) when it is true;
  \<^item> \<open>fout_data\<close> are the bytes the sink has accepted; \<open>fout_room\<close> is the number of bytes
    it still accepts (\<open>None\<close>: no limit), a write beyond it fails and sets the error
    indicator \<open>fout_err\<close>;
  \<^item> \<open>late_gets\<close> and \<open>late_puts\<close> count the calls of \<^verbatim>\<open>fgetc\<close> and of
    \<^verbatim>\<open>fputc\<close>/\<^verbatim>\<open>fwrite\<close> that are made while an error indicator is already set;
  \<^item> \<open>stderr_lines\<close> are the lines printed by \<^verbatim>\<open>PR_ERR\<close>.
\<close>

type_synonym byte = "8 word"

record io =
  fin_data :: "byte list"
  fin_bad :: bool
  fin_err :: bool
  fout_data :: "byte list"
  fout_room :: "nat option"
  fout_err :: bool
  late_gets :: nat
  late_puts :: nat
  stderr_lines :: "string list"

definition failed :: "io \<Rightarrow> bool" where
  "failed s = (fin_err s \<or> fout_err s)"

definition count_get :: "io \<Rightarrow> io" where
  "count_get s = (if failed s then s\<lparr>late_gets := late_gets s + 1\<rparr> else s)"

definition count_put :: "io \<Rightarrow> io" where
  "count_put s = (if failed s then s\<lparr>late_puts := late_puts s + 1\<rparr> else s)"

text \<open>\<^verbatim>\<open>fgetc(fin)\<close>: \<open>None\<close> stands for \<^verbatim>\<open>EOF\<close>.\<close>

definition fgetc :: "io \<Rightarrow> byte option \<times> io" where
  "fgetc s = (case fin_data s of
      c # cs \<Rightarrow> (Some c, (count_get s)\<lparr>fin_data := cs\<rparr>)
    | [] \<Rightarrow> (None, if fin_bad s then (count_get s)\<lparr>fin_err := True\<rparr> else count_get s))"

text \<open>\<^verbatim>\<open>fputc(c, fout)\<close>: the result is \<open>False\<close> where the C function returns \<^verbatim>\<open>EOF\<close>.\<close>

definition fputc :: "byte \<Rightarrow> io \<Rightarrow> bool \<times> io" where
  "fputc c s = (case fout_room s of
      None \<Rightarrow> (True, (count_put s)\<lparr>fout_data := fout_data s @ [c]\<rparr>)
    | Some r \<Rightarrow>
        if r = 0 then (False, (count_put s)\<lparr>fout_err := True\<rparr>)
        else (True, (count_put s)\<lparr>fout_data := fout_data s @ [c], fout_room := Some (r - 1)\<rparr>))"

text \<open>
  \<^verbatim>\<open>fwrite(p, n, 1, fout)\<close> for the \<open>n\<close> bytes \<open>bs\<close> at \<open>p\<close>: the bytes are written in order
  until one is refused. The code ignores the result of the call.
\<close>

definition fwrite :: "byte list \<Rightarrow> io \<Rightarrow> io" where
  "fwrite bs s = (case fout_room s of
      None \<Rightarrow> (count_put s)\<lparr>fout_data := fout_data s @ bs\<rparr>
    | Some r \<Rightarrow>
        if length bs \<le> r
        then (count_put s)\<lparr>fout_data := fout_data s @ bs, fout_room := Some (r - length bs)\<rparr>
        else (count_put s)\<lparr>fout_data := fout_data s @ take r bs, fout_room := Some 0,
                           fout_err := True\<rparr>)"

text \<open>\<^verbatim>\<open>PR_ERR(fmt)\<close> prints \<^verbatim>\<open>"rle: " fmt "\n"\<close> on \<^verbatim>\<open>stderr\<close>.\<close>

definition PR_ERR :: "string \<Rightarrow> io \<Rightarrow> io" where
  "PR_ERR m s = s\<lparr>stderr_lines := stderr_lines s @ [''rle: '' @ m]\<rparr>"

text \<open>
  The error numbers come from \<^verbatim>\<open>errno.h\<close>, a system header; these are the values of
  Linux. The development only uses that they are positive.
\<close>

definition EIO :: int where
  "EIO = 5"

definition EINVAL :: int where
  "EINVAL = 22"

text \<open>A stream pair without failures: \<open>bs\<close> to read, an unlimited sink.\<close>

definition ideal :: "byte list \<Rightarrow> io" where
  "ideal bs = \<lparr>fin_data = bs, fin_bad = False, fin_err = False, fout_data = [],
     fout_room = None, fout_err = False, late_gets = 0, late_puts = 0, stderr_lines = []\<rparr>"

section \<open>The decoder\<close>

text \<open>
  The inner loop of the run branch,
  \<^verbatim>\<open>do { if (fputc(ch, fout) == EOF) break; } while (--len);\<close>
  Its \<^verbatim>\<open>break\<close> leaves this loop only. \<open>len\<close> holds the value of a byte, \<open>0..255\<close>.
\<close>

function put_run :: "byte \<Rightarrow> nat \<Rightarrow> io \<Rightarrow> nat \<times> io" where
  "put_run ch len s = (case fputc ch s of
      (False, s') \<Rightarrow> (len, s')
    | (True, s') \<Rightarrow> (if len - 1 \<noteq> 0 then put_run ch (len - 1) s' else (len - 1, s')))"
  by pat_completeness auto
termination
  by (relation "measure (\<lambda>(ch, len, s). len)") auto

declare put_run.simps [simp del]

lemma fin_data_count_put [simp]: "fin_data (count_put s) = fin_data s"
  by (simp add: count_put_def)

lemma fin_data_fputc: "fputc c s = (r, s') \<Longrightarrow> fin_data s' = fin_data s"
  by (auto simp: fputc_def split: option.splits if_splits)

lemma fin_data_put_run: "put_run ch len s = (len', s') \<Longrightarrow> fin_data s' = fin_data s"
proof (induction ch len s arbitrary: len' s' rule: put_run.induct)
  case (1 ch len s)
  obtain r s1 where f: "fputc ch s = (r, s1)" by (cases "fputc ch s")
  have d: "fin_data s1 = fin_data s" using f by (rule fin_data_fputc)
  show ?case
  proof (cases "r \<and> len - 1 \<noteq> 0")
    case True
    then have "put_run ch (len - 1) s1 = (len', s')"
      using "1.prems" f by (subst (asm) put_run.simps) simp
    then have "fin_data s' = fin_data s1"
      using "1.IH" [OF f [symmetric]] True by blast
    then show ?thesis using d by simp
  next
    case False
    then have "s' = s1"
      using "1.prems" f by (subst (asm) put_run.simps) (auto split: if_splits bool.splits)
    then show ?thesis using d by simp
  qed
qed

lemma fin_data_fgetc_Some: "fgetc s = (Some c, s1) \<Longrightarrow> length (fin_data s1) < length (fin_data s)"
  by (auto simp: fgetc_def count_get_def split: list.splits if_splits)

text \<open>The \<^verbatim>\<open>while ((ch = fgetc(fin)) != EOF)\<close> loop of \<^verbatim>\<open>decode\<close>; it returns the final \<open>len\<close>.\<close>

function decode_loop :: "nat \<Rightarrow> io \<Rightarrow> nat \<times> io" where
  "decode_loop len s = (case fgetc s of
      (None, s1) \<Rightarrow> (len, s1)
    | (Some ch, s1) \<Rightarrow>
        if len = 0 then (if ch = 0 then (len, s1) else decode_loop (unat ch) s1)
        else if len < 0x80 then (case put_run ch len s1 of (len', s2) \<Rightarrow> decode_loop len' s2)
        else (case fputc ch s1 of
                (False, s2) \<Rightarrow> (len, s2)
              | (True, s2) \<Rightarrow> decode_loop ((len + 1) mod 0x100) s2))"
  by pat_completeness auto
termination
proof (relation "measure (\<lambda>(len, s). length (fin_data s))", goal_cases)
  case 1
  show ?case by simp
next
  case (2 len s x1 s1 ch)
  then show ?case using fin_data_fgetc_Some [of s ch s1] by simp
next
  case (3 len s x1 s1 ch x y)
  have g: "fgetc s = (Some ch, s1)" and p: "put_run ch len s1 = (x, y)"
    using 3 by simp_all
  show ?case
    using fin_data_fgetc_Some [OF g] fin_data_put_run [OF p] by simp
next
  case (4 len s x1 s1 ch x y)
  have g: "fgetc s = (Some ch, s1)" and p: "fputc ch s1 = (x, y)"
    using 4 by simp_all
  show ?case
    using fin_data_fgetc_Some [OF g] fin_data_fputc [OF p] by simp
qed

declare decode_loop.simps [simp del]

definition decode :: "io \<Rightarrow> int \<times> io" where
  "decode s = (case decode_loop 0 s of (len, s') \<Rightarrow>
      if fin_err s' then (- EIO, PR_ERR ''Input error.'' s')
      else if fout_err s' then (- EIO, PR_ERR ''Output error.'' s')
      else if len \<noteq> 0 then (- EIO, PR_ERR ''Unexpected end of stream.'' s')
      else (0, s'))"

section \<open>The encoder\<close>

text \<open>
  The local variables of \<^verbatim>\<open>encode\<close>: \<^verbatim>\<open>int len, flush, repeat\<close> and
  \<^verbatim>\<open>uint8_t buf[0x80 + 1]\<close>. \<open>buf\<close> is a list of \<open>0x81\<close> bytes; the variable \<^verbatim>\<open>ch\<close>
  is the \<open>byte option\<close> that \<open>fgetc\<close> returned.
\<close>

record enc =
  len :: int
  flush :: int
  repeat :: bool
  buf :: "byte list"

text \<open>
  C does not check an array index. In the model every access to \<^verbatim>\<open>buf\<close> is guarded:
  a step that would touch a slot outside \<^verbatim>\<open>buf[0] .. buf[0x80]\<close> has the value
  \<open>None\<close>.
\<close>

definition in_buf :: "int \<Rightarrow> bool" where
  "in_buf i = (0 \<le> i \<and> i < 0x80 + 1)"

definition at :: "byte list \<Rightarrow> int \<Rightarrow> byte" where
  "at b i = b ! nat i"

text \<open>\<^verbatim>\<open>if (ch != EOF) buf[len++] = ch;\<close>\<close>

definition enc_store :: "byte option \<Rightarrow> enc \<Rightarrow> enc option" where
  "enc_store ch e = (case ch of
      None \<Rightarrow> Some e
    | Some c \<Rightarrow>
        if in_buf (len e) then Some (e\<lparr>buf := (buf e)[nat (len e) := c], len := len e + 1\<rparr>)
        else None)"

text \<open>The branch \<^verbatim>\<open>if (repeat) { ... }\<close>: the choice of \<^verbatim>\<open>flush\<close> and the two \<^verbatim>\<open>fputc\<close>.\<close>

definition enc_run :: "byte option \<Rightarrow> enc \<Rightarrow> io \<Rightarrow> (enc \<times> io) option" where
  "enc_run ch e s =
    (if in_buf (len e - 2) \<and> in_buf (len e - 1) then
       (let e' = (if at (buf e) (len e - 2) \<noteq> at (buf e) (len e - 1)
                  then e\<lparr>flush := len e - 1, repeat := False\<rparr>
                  else if len e = 0x7f \<or> ch = None
                  then e\<lparr>flush := len e, repeat := False\<rparr>
                  else e)
        in if flush e' \<noteq> 0
           then Some (e', snd (fputc (at (buf e') 0) (snd (fputc (word_of_int (flush e')) s))))
           else Some (e', s))
     else None)"

text \<open>
  The branch \<^verbatim>\<open>else { ... }\<close>: the choice of \<^verbatim>\<open>flush\<close>, then \<^verbatim>\<open>fputc\<close> of the length
  byte and \<^verbatim>\<open>fwrite(buf, flush, 1, fout)\<close>. \<^verbatim>\<open>len >= 2 && ...\<close> reads the buffer only
  when \<^verbatim>\<open>len >= 2\<close>.
\<close>

definition enc_lit :: "byte option \<Rightarrow> enc \<Rightarrow> io \<Rightarrow> (enc \<times> io) option" where
  "enc_lit ch e s =
    (if 2 \<le> len e \<and> \<not> (in_buf (len e - 2) \<and> in_buf (len e - 1)) then None
     else
       (let e' = (if 2 \<le> len e \<and> at (buf e) (len e - 2) = at (buf e) (len e - 1)
                  then e\<lparr>flush := len e - 2, repeat := True\<rparr>
                  else if len e = 0x81
                  then e\<lparr>flush := 0x80\<rparr>
                  else if ch = None
                  then e\<lparr>flush := len e\<rparr>
                  else e)
        in if flush e' \<noteq> 0
           then (if 0 \<le> flush e' \<and> flush e' \<le> 0x80 + 1
                 then Some (e', fwrite (take (nat (flush e')) (buf e'))
                                  (snd (fputc (word_of_int (0x100 - flush e')) s)))
                 else None)
           else Some (e', s)))"

text \<open>
  \<^verbatim>\<open>memmove(&buf[0], &buf[flush], len - flush); len -= flush; flush = 0;\<close>
  The bytes \<^verbatim>\<open>buf[flush] .. buf[len - 1]\<close> are copied to the front of the array.
\<close>

definition enc_shift :: "enc \<Rightarrow> enc option" where
  "enc_shift e =
    (if 0 \<le> flush e \<and> flush e \<le> len e \<and> len e \<le> 0x80 + 1 then
       Some (e\<lparr>buf := take (nat (len e - flush e)) (drop (nat (flush e)) (buf e))
                      @ drop (nat (len e - flush e)) (buf e),
               len := len e - flush e, flush := 0\<rparr>)
     else None)"

text \<open>
  One pass through the body of \<^verbatim>\<open>while (ch != EOF)\<close> after \<^verbatim>\<open>ch = fgetc(fin)\<close>.
  The first component of the result tells whether the pass ended in a \<^verbatim>\<open>break\<close>.
\<close>

definition enc_iter :: "byte option \<Rightarrow> enc \<Rightarrow> io \<Rightarrow> (bool \<times> enc \<times> io) option" where
  "enc_iter ch e s =
    (if ch = None \<and> fin_err s then Some (True, e, s)
     else case enc_store ch e of
       None \<Rightarrow> None
     | Some e1 \<Rightarrow>
        (case (if repeat e1 then enc_run ch e1 s else enc_lit ch e1 s) of
           None \<Rightarrow> None
         | Some (e2, s2) \<Rightarrow>
            if flush e2 \<noteq> 0 then
              (if fout_err s2 then Some (True, e2, s2)
               else map_option (\<lambda>e3. (False, e3, s2)) (enc_shift e2))
            else Some (False, e2, s2)))"

lemma fin_data_fwrite [simp]: "fin_data (fwrite bs s) = fin_data s"
  by (simp add: fwrite_def split: option.splits)

lemma fin_data_snd_fputc [simp]: "fin_data (snd (fputc c s)) = fin_data s"
  by (cases "fputc c s") (simp add: fin_data_fputc)

lemma fin_data_enc_run: "enc_run ch e s = Some (e', s') \<Longrightarrow> fin_data s' = fin_data s"
  by (auto simp: enc_run_def Let_def split: if_splits)

lemma fin_data_enc_lit: "enc_lit ch e s = Some (e', s') \<Longrightarrow> fin_data s' = fin_data s"
  by (auto simp: enc_lit_def Let_def split: if_splits)

lemma fin_data_enc_iter: "enc_iter ch e s = Some (b, e', s') \<Longrightarrow> fin_data s' = fin_data s"
  by (auto simp: enc_iter_def split: if_splits option.splits
      dest: fin_data_enc_run fin_data_enc_lit)

function encode_loop :: "enc \<Rightarrow> io \<Rightarrow> (enc \<times> io) option" where
  "encode_loop e s = (case fgetc s of (ch, s1) \<Rightarrow>
      (case enc_iter ch e s1 of
         None \<Rightarrow> None
       | Some (brk, e', s') \<Rightarrow>
          if brk \<or> ch = None then Some (e', s') else encode_loop e' s'))"
  by pat_completeness auto
termination
proof (relation "measure (\<lambda>(e, s). length (fin_data s))", goal_cases)
  case 1
  show ?case by simp
next
  case (2 e s ch s1 r brk r' e' s')
  have g: "fgetc s = (ch, s1)" and i: "enc_iter ch e s1 = Some (brk, e', s')"
    using 2 by simp_all
  from 2 obtain c where c: "ch = Some c" by auto
  show ?case
    using fin_data_fgetc_Some [OF g [unfolded c]] fin_data_enc_iter [OF i] by simp
qed

declare encode_loop.simps [simp del]

text \<open>\<^verbatim>\<open>int ch = 0, len = 0, flush = 0, repeat = 0;\<close> The array is not initialised in C.\<close>

definition enc_init :: enc where
  "enc_init = \<lparr>len = 0, flush = 0, repeat = False, buf = replicate (0x80 + 1) 0\<rparr>"

definition encode :: "io \<Rightarrow> (int \<times> io) option" where
  "encode s = (case encode_loop enc_init s of
      None \<Rightarrow> None
    | Some (e, s') \<Rightarrow>
        Some (if fin_err s' then (- EIO, PR_ERR ''Input error.'' s')
              else if fout_err s' then (- EIO, PR_ERR ''Output error.'' s')
              else (0, s')))"

section \<open>The compressed format\<close>

text \<open>
  The format as the head of \<^verbatim>\<open>rle.c\<close> and the specification describe it: a stream of
  segments, each one length byte \<open>L\<close> and its data. \<open>1 \<le> L \<le> 127\<close> is a run, one data byte
  that stands for \<open>L\<close> copies of it; \<open>128 \<le> L \<le> 255\<close> is a literal of \<open>256 - L\<close> data
  bytes; \<open>L = 0\<close> ends the stream. \<open>spec_segments\<close> follows these words, not the code of
  \<^verbatim>\<open>decode\<close>: it splits a stream into its segments and the bytes behind a terminator, and
  is \<open>None\<close> when the stream ends inside a segment.
\<close>

datatype segment = Run nat byte | Literal "byte list"

fun expand :: "segment \<Rightarrow> byte list" where
  "expand (Run n b) = replicate n b"
| "expand (Literal bs) = bs"

fun spec_segments :: "byte list \<Rightarrow> (segment list \<times> byte list) option" where
  "spec_segments [] = Some ([], [])"
| "spec_segments (l # bs) =
    (if l = 0 then Some ([], bs)
     else if unat l < 0x80 then
       (case bs of
          [] \<Rightarrow> None
        | b # rest \<Rightarrow> map_option (\<lambda>(sg, r). (Run (unat l) b # sg, r)) (spec_segments rest))
     else
       (if length bs < 0x100 - unat l then None
        else map_option (\<lambda>(sg, r). (Literal (take (0x100 - unat l) bs) # sg, r))
               (spec_segments (drop (0x100 - unat l) bs))))"

text \<open>The bytes of one segment, and of a list of segments.\<close>

fun ser :: "segment \<Rightarrow> byte list" where
  "ser (Run n b) = [word_of_int (int n), b]"
| "ser (Literal bs) = word_of_int (0x100 - int (length bs)) # bs"

text \<open>A stream pair on which no call fails.\<close>

definition clean :: "io \<Rightarrow> bool" where
  "clean s = (\<not> fin_bad s \<and> \<not> fin_err s \<and> fout_room s = None \<and> \<not> fout_err s)"

section \<open>Segments an encoder may emit\<close>

text \<open>
  The bounds of the specification on a segment: a run counts 2 to 127 bytes, a literal
  holds 1 to 128 bytes.
\<close>

fun seg_ok :: "segment \<Rightarrow> bool" where
  "seg_ok (Run n b) = (2 \<le> n \<and> n \<le> 0x7f)"
| "seg_ok (Literal bs) = (1 \<le> length bs \<and> length bs \<le> 0x80)"

fun joinable :: "segment \<Rightarrow> segment \<Rightarrow> bool" where
  "joinable (Literal xs) (Literal ys) = (length xs < 0x80)"
| "joinable (Run n a) (Run m b) = (a = b \<and> n < 0x7f)"
| "joinable (Literal xs) (Run m b) = False"
| "joinable (Run n a) (Literal ys) = False"

fun no_joinable :: "segment list \<Rightarrow> bool" where
  "no_joinable [] = True"
| "no_joinable [x] = True"
| "no_joinable (x # y # r) = (\<not> joinable x y \<and> no_joinable (y # r))"


section \<open>The encoder loop on the buffered bytes\<close>

text \<open>
  \<open>astep r B ch\<close> describes one pass of the loop of \<^verbatim>\<open>encode\<close> on the bytes \<open>B\<close> that are
  buffered (\<^verbatim>\<open>buf[0] .. buf[len - 1]\<close>) and the flag \<open>r\<close> (\<^verbatim>\<open>repeat\<close>), for the next
  input \<open>ch\<close>: the segment that is written, if any, the new flag and the new buffered bytes.
  It is a device of the proofs; \<open>iter_astep\<close> below shows that the code does what it
  says. \<open>ainv\<close> is the invariant of the loop: in run mode the buffer holds 2 to 126 copies
  of one byte, otherwise it holds at most 128 bytes and its last two bytes differ.
\<close>

fun opt_list :: "'a option \<Rightarrow> 'a list" where
  "opt_list None = []"
| "opt_list (Some x) = [x]"

fun astep :: "bool \<Rightarrow> byte list \<Rightarrow> byte option \<Rightarrow> segment option \<times> bool \<times> byte list" where
  "astep False B None = (if B = [] then None else Some (Literal B), False, [])"
| "astep False B (Some c) =
     (if B \<noteq> [] \<and> last B = c
      then (if butlast B = [] then None else Some (Literal (butlast B)), True, [c, c])
      else if length B = 0x80 then (Some (Literal B), False, [c])
      else (None, False, B @ [c]))"
| "astep True B None = (Some (Run (length B) (hd B)), False, [])"
| "astep True B (Some c) =
     (if last B \<noteq> c then (Some (Run (length B) (hd B)), False, [c])
      else if length B + 1 = 0x7f then (Some (Run (length B + 1) (hd B)), False, [])
      else (None, True, B @ [c]))"

fun aenc :: "bool \<Rightarrow> byte list \<Rightarrow> byte list \<Rightarrow> segment list" where
  "aenc r B [] = opt_list (fst (astep r B None))"
| "aenc r B (c # cs) =
     (case astep r B (Some c) of (sg, r', B') \<Rightarrow> opt_list sg @ aenc r' B' cs)"

fun ainv :: "bool \<Rightarrow> byte list \<Rightarrow> bool" where
  "ainv True B = (2 \<le> length B \<and> length B \<le> 0x7e \<and> B = replicate (length B) (hd B))"
| "ainv False B = (length B \<le> 0x80 \<and> (2 \<le> length B \<longrightarrow> last (butlast B) \<noteq> last B))"

fun first_ok :: "bool \<Rightarrow> byte list \<Rightarrow> segment \<Rightarrow> bool" where
  "first_ok True B (Run n b) = (b = hd B)"
| "first_ok True B (Literal xs) = False"
| "first_ok False B (Run n b) = (length B = 0 \<or> (length B = 1 \<and> b = hd B))"
| "first_ok False B (Literal xs) = True"


text \<open>Writing one segment: the two calls the encoder makes.\<close>

fun put_seg :: "segment \<Rightarrow> io \<Rightarrow> io" where
  "put_seg (Run n b) s = snd (fputc b (snd (fputc (word_of_int (int n)) s)))"
| "put_seg (Literal bs) s = fwrite bs (snd (fputc (word_of_int (0x100 - int (length bs))) s))"

section \<open>Devices for the proof that the code follows \<open>astep\<close>\<close>

text \<open>
  \<open>mkenc r B pad\<close> are the variables of \<^verbatim>\<open>encode\<close> at the head of the loop when the flag
  is \<open>r\<close>, the buffered bytes are \<open>B\<close> and \<open>pad\<close> fills the rest of the array. \<open>tstep\<close> is
  the loop body behind \<^verbatim>\<open>buf[len++] = ch\<close> in the words of the code, on the buffered bytes;
  \<open>enc_tail\<close> is that part of \<open>enc_iter\<close>. \<open>outcome\<close> writes the segment of a pass, if
  there is one. \<open>aloop\<close> is the loop of \<^verbatim>\<open>encode\<close> with \<open>astep\<close> for its body.
\<close>

definition mkenc :: "bool \<Rightarrow> byte list \<Rightarrow> byte list \<Rightarrow> enc" where
  "mkenc r B pad = \<lparr>len = int (length B), flush = 0, repeat = r, buf = B @ pad\<rparr>"

definition tstep :: "bool \<Rightarrow> byte list \<Rightarrow> bool \<Rightarrow> segment option \<times> bool \<times> byte list" where
  "tstep r B1 eof = (let n = length B1 in
     if r then
       (if last (butlast B1) \<noteq> last B1 then (Some (Run (n - 1) (hd B1)), False, drop (n - 1) B1)
        else if n = 0x7f \<or> eof then (Some (Run n (hd B1)), False, drop n B1)
        else (None, True, B1))
     else
       (if 2 \<le> n \<and> last (butlast B1) = last B1
        then (if n = 2 then None else Some (Literal (take (n - 2) B1)), True, drop (n - 2) B1)
        else if n = 0x81 then (Some (Literal (take 0x80 B1)), False, drop 0x80 B1)
        else if eof then (if B1 = [] then None else Some (Literal B1), False, drop n B1)
        else (None, False, B1)))"

definition enc_tail :: "byte option \<Rightarrow> enc \<Rightarrow> io \<Rightarrow> (bool \<times> enc \<times> io) option" where
  "enc_tail ch e1 s =
     (case (if repeat e1 then enc_run ch e1 s else enc_lit ch e1 s) of
           None \<Rightarrow> None
         | Some (e2, s2) \<Rightarrow>
            if flush e2 \<noteq> 0 then
              (if fout_err s2 then Some (True, e2, s2)
               else map_option (\<lambda>e3. (False, e3, s2)) (enc_shift e2))
            else Some (False, e2, s2))"

definition outcome :: "segment option \<Rightarrow> io \<Rightarrow> io" where
  "outcome sg s = (case sg of None \<Rightarrow> s | Some x \<Rightarrow> put_seg x s)"

definition raw_run :: "int \<Rightarrow> byte \<Rightarrow> io \<Rightarrow> io" where
  "raw_run f b s = snd (fputc b (snd (fputc (word_of_int f) s)))"

definition raw_lit :: "int \<Rightarrow> byte list \<Rightarrow> io \<Rightarrow> io" where
  "raw_lit f bs s = fwrite bs (snd (fputc (word_of_int (0x100 - f)) s))"

definition good_exit :: "(bool \<times> enc \<times> io) option \<Rightarrow> segment option \<Rightarrow> bool \<Rightarrow> byte list \<Rightarrow> io \<Rightarrow> bool" where
  "good_exit res sg r' B' s = (\<exists>e'. res = Some (sg \<noteq> None \<and> fout_err (outcome sg s), e', outcome sg s) \<and>
      (\<not> (sg \<noteq> None \<and> fout_err (outcome sg s)) \<longrightarrow>
         (\<exists>pad'. e' = mkenc r' B' pad' \<and> length B' + length pad' = 0x81)))"

lemma fin_data_outcome [simp]: "fin_data (outcome sg s) = fin_data s"
  by (cases sg; cases "the sg") (simp_all add: outcome_def)

function aloop :: "bool \<Rightarrow> byte list \<Rightarrow> io \<Rightarrow> io" where
  "aloop r B s = (case fgetc s of (ch, s1) \<Rightarrow>
      if ch = None \<and> fin_err s1 then s1
      else (case astep r B ch of (sg, r', B') \<Rightarrow>
        if (sg \<noteq> None \<and> fout_err (outcome sg s1)) \<or> ch = None then outcome sg s1
        else aloop r' B' (outcome sg s1)))"
  by pat_completeness auto
termination
proof (relation "measure (\<lambda>(r, B, s). length (fin_data s))", goal_cases)
  case 1
  show ?case by simp
next
  case (2 r B s ch s1 sg p r' B')
  then obtain c where c: "ch = Some c" by auto
  have g: "fgetc s = (Some c, s1)" using 2 c by simp
  show ?case using fin_data_fgetc_Some [OF g] by simp
qed

declare aloop.simps [simp del]

section \<open>Notions used by the statements\<close>

text \<open>Streams on which no call has failed yet and no call was made after a failure.\<close>

definition fresh :: "io \<Rightarrow> bool" where
  "fresh s = (\<not> fin_err s \<and> \<not> fout_err s \<and> late_gets s = 0 \<and> late_puts s = 0)"

text \<open>The calls made after a failure: reads, and writes.\<close>

definition late_calls :: "io \<Rightarrow> nat \<times> nat" where
  "late_calls s = (late_gets s, late_puts s)"

text \<open>
  The segments \<^verbatim>\<open>encode\<close> writes for the input \<open>S\<close>, read back from its output.
  Two neighbours are \<open>mergeable\<close> in the words of the specification when both are literals
  or both are runs of the same byte. They are \<open>joinable\<close> (above) when, in addition, the
  first one is not yet at its largest count, 128 for a literal and 127 for a run.
\<close>

fun mergeable :: "segment \<Rightarrow> segment \<Rightarrow> bool" where
  "mergeable (Literal xs) (Literal ys) = True"
| "mergeable (Run n a) (Run m b) = (a = b)"
| "mergeable (Literal xs) (Run m b) = False"
| "mergeable (Run n a) (Literal ys) = False"

fun no_mergeable :: "segment list \<Rightarrow> bool" where
  "no_mergeable [] = True"
| "no_mergeable [x] = True"
| "no_mergeable (x # y # r) = (\<not> mergeable x y \<and> no_mergeable (y # r))"

definition emitted :: "byte list \<Rightarrow> segment list option" where
  "emitted S = (case encode (ideal S) of
      None \<Rightarrow> None
    | Some (r, s) \<Rightarrow> map_option fst (spec_segments (fout_data s)))"

text \<open>
  The states of \<^verbatim>\<open>encode\<close> at the head of its loop in a run that starts on the streams
  \<open>s0\<close>: the initial one, and the one behind every pass that ends without \<^verbatim>\<open>break\<close>
  after a byte was read.
\<close>

inductive enc_reach :: "io \<Rightarrow> enc \<Rightarrow> io \<Rightarrow> bool" for s0 :: io where
  start: "enc_reach s0 enc_init s0"
| pass: "enc_reach s0 e s \<Longrightarrow> fgetc s = (Some c, s1) \<Longrightarrow>
         enc_iter (Some c) e s1 = Some (False, e', s') \<Longrightarrow> enc_reach s0 e' s'"

code_pred enc_reach .

section \<open>The exit status of the program\<close>

text \<open>
  \<^verbatim>\<open>main\<close> is modelled as far as its exit status goes. What the program prints (the usage
  and version texts, the messages of \<^verbatim>\<open>main\<close>) and the calls that release resources
  (\<^verbatim>\<open>fclose\<close>, \<^verbatim>\<open>free\<close>) are left out. The answers of the system are the fields of \<open>env\<close>:
  the option letters \<^verbatim>\<open>getopt\<close> returns in turn, the operand \<^verbatim>\<open>argv[optind]\<close> if there is
  one, whether \<^verbatim>\<open>fopen\<close>, \<^verbatim>\<open>malloc\<close>, \<^verbatim>\<open>open\<close> and \<^verbatim>\<open>fdopen\<close> succeed, the error number of
  a failed \<^verbatim>\<open>unlink(fnout)\<close> and of a failed \<^verbatim>\<open>unlink(fnin)\<close> (\<open>None\<close>: the call
  succeeds), whether the output is a terminal, and the two streams the codec works on.
  \<^verbatim>\<open>ENOENT\<close> has its value of Linux.
\<close>

datatype exit_status = EXIT_SUCCESS | EXIT_FAILURE

definition ENOENT :: int where
  "ENOENT = 2"

text \<open>The variables \<^verbatim>\<open>op\<close>, \<^verbatim>\<open>force\<close>, \<^verbatim>\<open>keep\<close> and \<^verbatim>\<open>fout\<close> (is it \<^verbatim>\<open>stdout\<close>?) of \<^verbatim>\<open>main\<close>.\<close>

record mainvars =
  op_decode :: bool
  force :: bool
  keep :: bool
  fout_stdout :: bool

text \<open>The loop \<^verbatim>\<open>while ((opt = getopt(argc, argv, "cdfhkV")) != -1)\<close>; \<open>Inl\<close> is a \<^verbatim>\<open>return\<close>.\<close>

fun getopt_loop :: "char list \<Rightarrow> mainvars \<Rightarrow> exit_status + mainvars" where
  "getopt_loop [] v = Inr v"
| "getopt_loop (opt # rest) v =
    (if opt = CHR ''c'' then getopt_loop rest (v\<lparr>fout_stdout := True\<rparr>)
     else if opt = CHR ''d'' then getopt_loop rest (v\<lparr>op_decode := True\<rparr>)
     else if opt = CHR ''f'' then getopt_loop rest (v\<lparr>force := True\<rparr>)
     else if opt = CHR ''h'' then Inl EXIT_SUCCESS
     else if opt = CHR ''k'' then getopt_loop rest (v\<lparr>keep := True\<rparr>)
     else if opt = CHR ''V'' then Inl EXIT_SUCCESS
     else Inl EXIT_FAILURE)"

record env =
  opt_chars :: "char list"
  operand :: "string option"
  fopen_ok :: bool
  malloc_ok :: bool
  unlink_out :: "int option"
  open_ok :: bool
  fdopen_ok :: bool
  out_isatty :: bool
  streams :: io
  unlink_in :: "int option"

text \<open>\<^verbatim>\<open>fnin\<close>, and the test \<^verbatim>\<open>strcmp(&fnin[fnlen - 4], ".rle") == 0\<close>.\<close>

definition fnin_of :: "env \<Rightarrow> string" where
  "fnin_of env = (case operand env of None \<Rightarrow> ''-'' | Some a \<Rightarrow> a)"

definition has_rle_suffix :: "string \<Rightarrow> bool" where
  "has_rle_suffix fnin = (drop (length fnin - 4) fnin = ''.rle'')"

text \<open>
  The block \<^verbatim>\<open>if (!fout) { ... }\<close>: it is \<open>False\<close> when one of its steps ends in
  \<^verbatim>\<open>goto exit\<close>.
\<close>

definition open_output :: "env \<Rightarrow> mainvars \<Rightarrow> bool" where
  "open_output env v =
    (let fnin = fnin_of env; fnlen = length fnin in
     if (if \<not> op_decode v
         then (\<not> force v \<and> fnlen > 4 \<and> has_rle_suffix fnin) \<or> \<not> malloc_ok env
         else (fnlen \<le> 4 \<or> \<not> has_rle_suffix fnin) \<or> \<not> malloc_ok env)
     then False
     else if force v \<and> (case unlink_out env of None \<Rightarrow> False | Some e \<Rightarrow> e \<noteq> ENOENT) then False
     else if \<not> open_ok env then False
     else if \<not> fdopen_ok env then False
     else True)"

text \<open>\<^verbatim>\<open>keep\<close> behind \<^verbatim>\<open>if (strcmp(fnin, "-") == 0) { keep = 1; ... }\<close>.\<close>

definition keep_input :: "env \<Rightarrow> mainvars \<Rightarrow> bool" where
  "keep_input env v = (keep v \<or> fnin_of env = ''-'')"

text \<open>Whether control reaches \<^verbatim>\<open>ret = op(fin, fout)\<close>, that is no \<^verbatim>\<open>goto exit\<close> is taken before.\<close>

definition reaches_op :: "env \<Rightarrow> mainvars \<Rightarrow> bool" where
  "reaches_op env v =
    (let std = (fnin_of env = ''-'') in
     if \<not> std \<and> \<not> fopen_ok env then False
     else if \<not> (fout_stdout v \<or> std) \<and> \<not> open_output env v then False
     else if \<not> op_decode v \<and> out_isatty env \<and> \<not> force v then False
     else True)"

definition run_op :: "env \<Rightarrow> mainvars \<Rightarrow> (int \<times> io) option" where
  "run_op env v = (if op_decode v then Some (decode (streams env)) else encode (streams env))"

definition main_vars0 :: mainvars where
  "main_vars0 = \<lparr>op_decode = False, force = False, keep = False, fout_stdout = False\<rparr>"

text \<open>
  \<open>main_ret\<close> is \<open>Inl\<close> of the status when \<^verbatim>\<open>main\<close> returns from the option loop, and
  \<open>Inr\<close> of the variable \<^verbatim>\<open>ret\<close> when it arrives at the label \<^verbatim>\<open>exit\<close>; \<^verbatim>\<open>ret\<close> starts as
  \<^verbatim>\<open>-EINVAL\<close>. \<open>main\<close> adds the last line, \<^verbatim>\<open>return ret ? EXIT_SUCCESS : EXIT_FAILURE\<close>.
\<close>

definition main_ret :: "env \<Rightarrow> (exit_status + int) option" where
  "main_ret env = (case getopt_loop (opt_chars env) main_vars0 of
      Inl e \<Rightarrow> Some (Inl e)
    | Inr v \<Rightarrow>
        if \<not> reaches_op env v then Some (Inr (- EINVAL))
        else (case run_op env v of
                None \<Rightarrow> None
              | Some (ret, s') \<Rightarrow>
                  Some (Inr (if ret = 0 \<and> \<not> keep_input env v
                             then (case unlink_in env of None \<Rightarrow> ret | Some e \<Rightarrow> - e)
                             else ret))))"

definition main :: "env \<Rightarrow> exit_status option" where
  "main env = (case main_ret env of
      None \<Rightarrow> None
    | Some (Inl e) \<Rightarrow> Some e
    | Some (Inr ret) \<Rightarrow> Some (if ret \<noteq> 0 then EXIT_SUCCESS else EXIT_FAILURE))"

text \<open>
  The run got to the codec operation, the operation returned 0, and the input file was
  to be kept or was removed.
\<close>

definition succeeded :: "env \<Rightarrow> bool" where
  "succeeded env = (case getopt_loop (opt_chars env) main_vars0 of
      Inl e \<Rightarrow> False
    | Inr v \<Rightarrow> reaches_op env v \<and>
        (case run_op env v of None \<Rightarrow> False | Some (ret, s') \<Rightarrow> ret = 0) \<and>
        (keep_input env v \<or> unlink_in env = None))"

text \<open>An environment in which \<^verbatim>\<open>rle -d a.rle\<close> finds a well-formed file.\<close>

definition env0 :: env where
  "env0 = \<lparr>opt_chars = ''d'', operand = Some ''a.rle'', fopen_ok = True, malloc_ok = True,
     unlink_out = None, open_ok = True, fdopen_ok = True, out_isatty = False,
     streams = ideal [2, 0x41], unlink_in = None\<rparr>"

section \<open>The decoder on streams without failure\<close>

lemma fgetc_clean:
  "clean s \<Longrightarrow> fgetc s = (case fin_data s of [] \<Rightarrow> (None, s) | c # cs \<Rightarrow> (Some c, s\<lparr>fin_data := cs\<rparr>))"
  by (simp add: fgetc_def clean_def count_get_def failed_def split: list.splits)

lemma fputc_clean: "clean s \<Longrightarrow> fputc c s = (True, s\<lparr>fout_data := fout_data s @ [c]\<rparr>)"
  by (simp add: fputc_def clean_def count_put_def failed_def)

lemma fwrite_clean: "clean s \<Longrightarrow> fwrite bs s = s\<lparr>fout_data := fout_data s @ bs\<rparr>"
  by (simp add: fwrite_def clean_def count_put_def failed_def)

lemma clean_upd [simp]:
  "clean (s\<lparr>fout_data := d\<rparr>) = clean s" "clean (s\<lparr>fin_data := i\<rparr>) = clean s"
  by (simp_all add: clean_def)

lemma put_run_clean:
  "clean s \<Longrightarrow> put_run ch (Suc n) s = (0, s\<lparr>fout_data := fout_data s @ replicate (Suc n) ch\<rparr>)"
proof (induction n arbitrary: s)
  case 0
  then show ?case by (subst put_run.simps) (simp add: fputc_clean)
next
  case (Suc n)
  have "put_run ch (Suc (Suc n)) s = put_run ch (Suc n) (s\<lparr>fout_data := fout_data s @ [ch]\<rparr>)"
    using Suc.prems by (subst put_run.simps) (simp add: fputc_clean)
  also have "\<dots> = (0, s\<lparr>fout_data := fout_data s @ replicate (Suc (Suc n)) ch\<rparr>)"
    using Suc.prems by (subst Suc.IH) (simp_all add: replicate_append_same)
  finally show ?case .
qed

lemma lit_loop_full:
  "clean s \<Longrightarrow> 0x100 - m = k \<Longrightarrow> 0x80 \<le> m \<Longrightarrow> m < 0x100 \<Longrightarrow> k \<le> length (fin_data s) \<Longrightarrow>
   decode_loop m s =
   decode_loop 0 (s\<lparr>fin_data := drop k (fin_data s), fout_data := fout_data s @ take k (fin_data s)\<rparr>)"
proof (induction k arbitrary: m s)
  case 0
  then show ?case by simp
next
  case (Suc k)
  then obtain c cs where d: "fin_data s = c # cs" by (cases "fin_data s") auto
  let ?s' = "s\<lparr>fin_data := cs, fout_data := fout_data s @ [c]\<rparr>"
  have step: "decode_loop m s = decode_loop ((m + 1) mod 0x100) ?s'"
    using Suc.prems d by (subst decode_loop.simps) (simp add: fgetc_clean fputc_clean)
  show ?case
  proof (cases k)
    case 0
    then have "m = 255" using Suc.prems by simp
    then show ?thesis using step d 0 by simp
  next
    case (Suc j)
    then have l: "(m + 1) mod 0x100 = m + 1" using Suc.prems by simp
    have "decode_loop (m + 1) ?s' =
       decode_loop 0 (?s'\<lparr>fin_data := drop k (fin_data ?s'), fout_data := fout_data ?s' @ take k (fin_data ?s')\<rparr>)"
      using Suc.prems d Suc by (intro Suc.IH) simp_all
    then show ?thesis using step l d by simp
  qed
qed

lemma lit_loop_short:
  "clean s \<Longrightarrow> 0x80 \<le> m \<Longrightarrow> m < 0x100 \<Longrightarrow> length (fin_data s) < 0x100 - m \<Longrightarrow>
   \<exists>n i d. decode_loop m s = (n, s\<lparr>fin_data := i, fout_data := d\<rparr>) \<and> n \<noteq> 0"
proof (induction "fin_data s" arbitrary: m s)
  case Nil
  have "decode_loop m s = (m, s\<lparr>fin_data := fin_data s, fout_data := fout_data s\<rparr>)"
    using Nil by (subst decode_loop.simps) (simp add: fgetc_clean)
  moreover have "m \<noteq> 0" using Nil.prems by simp
  ultimately show ?case by blast
next
  case (Cons c cs)
  let ?s' = "s\<lparr>fin_data := cs, fout_data := fout_data s @ [c]\<rparr>"
  have d: "fin_data s = c # cs" using Cons.hyps(2) by simp
  have step: "decode_loop m s = decode_loop ((m + 1) mod 0x100) ?s'"
    using Cons.prems d by (subst decode_loop.simps) (simp add: fgetc_clean fputc_clean)
  have l: "(m + 1) mod 0x100 = m + 1" using Cons.prems d by simp
  have "\<exists>n i d. decode_loop (m + 1) ?s' = (n, ?s'\<lparr>fin_data := i, fout_data := d\<rparr>) \<and> n \<noteq> 0"
    using Cons.prems d by (intro Cons.hyps(1)) simp_all
  then show ?case using step l by simp
qed

lemma decode_loop_clean:
  "clean s \<Longrightarrow> fin_data s = bs \<Longrightarrow>
   (case spec_segments bs of
      Some (sg, rest) \<Rightarrow>
        decode_loop 0 s = (0, s\<lparr>fin_data := rest, fout_data := fout_data s @ concat (map expand sg)\<rparr>)
    | None \<Rightarrow> (\<exists>n i d. decode_loop 0 s = (n, s\<lparr>fin_data := i, fout_data := d\<rparr>) \<and> n \<noteq> 0))"
proof (induction bs arbitrary: s rule: spec_segments.induct)
  case 1
  then show ?case by (subst decode_loop.simps) (simp add: fgetc_clean)
next
  case (2 l bs)
  let ?s1 = "s\<lparr>fin_data := bs\<rparr>"
  have c1: "clean ?s1" using "2.prems" by simp
  show ?case
  proof (cases "l = 0")
    case True
    then show ?thesis using "2.prems" by (subst decode_loop.simps) (simp add: fgetc_clean)
  next
    case nz: False
    then have un: "unat l \<noteq> 0" by (simp add: unat_eq_0)
    have step: "decode_loop 0 s = decode_loop (unat l) ?s1"
      using "2.prems" nz by (subst decode_loop.simps) (simp add: fgetc_clean)
    show ?thesis
    proof (cases "unat l < 0x80")
      case run: True
      show ?thesis
      proof (cases bs)
        case Nil
        then have "decode_loop (unat l) ?s1 = (unat l, s\<lparr>fin_data := [], fout_data := fout_data s\<rparr>)"
          using c1 by (subst decode_loop.simps) (simp add: fgetc_clean)
        then have "decode_loop 0 s = (unat l, s\<lparr>fin_data := [], fout_data := fout_data s\<rparr>)"
          using step by simp
        then have "\<exists>n i d. decode_loop 0 s = (n, s\<lparr>fin_data := i, fout_data := d\<rparr>) \<and> n \<noteq> 0"
          using un by blast
        then show ?thesis using nz run Nil by simp
      next
        case (Cons b rest)
        obtain m where m: "unat l = Suc m" using un by (cases "unat l") auto
        let ?s2 = "s\<lparr>fin_data := rest, fout_data := fout_data s @ replicate (unat l) b\<rparr>"
        have "decode_loop (unat l) ?s1 = decode_loop 0 ?s2"
          using c1 run un Cons "2.prems" m
          by (subst decode_loop.simps) (simp add: fgetc_clean put_run_clean)
        moreover have "clean ?s2" "fin_data ?s2 = rest" using "2.prems" by simp_all
        note "2.IH"(1) [OF nz run Cons this]
        ultimately show ?thesis using step nz run Cons
          by (auto split: option.splits)
      qed
    next
      case lit: False
      have lt: "unat l < 0x100" using unsigned_less [of l, where ?'a = nat] by simp
      show ?thesis
      proof (cases "length bs < 0x100 - unat l")
        case True
        then show ?thesis
          using lit_loop_short [of ?s1 "unat l"] c1 lit lt step nz by simp
      next
        case False
        let ?k = "0x100 - unat l"
        let ?s2 = "s\<lparr>fin_data := drop ?k bs, fout_data := fout_data s @ take ?k bs\<rparr>"
        have "decode_loop (unat l) ?s1 = decode_loop 0 ?s2"
          using lit_loop_full [of ?s1 "unat l" ?k] c1 lit lt False by simp
        moreover have "clean ?s2" "fin_data ?s2 = drop ?k bs" using "2.prems" by simp_all
        note "2.IH"(2) [OF nz lit False this]
        ultimately show ?thesis using step nz lit False
          by (auto split: option.splits)
      qed
    qed
  qed
qed

section \<open>Properties of the loop on the buffered bytes\<close>

lemma last_replicate': "0 < n \<Longrightarrow> last (replicate n x) = x"
  by (cases n) simp_all

lemma ainv_step:
  assumes "ainv r B" "astep r B (Some c) = (sg, r', B')"
  shows "ainv r' B'"
proof (cases r)
  case True
  then have B: "B = replicate (length B) (hd B)" "2 \<le> length B" "length B \<le> 0x7e"
    using assms(1) by simp_all
  have l: "last B = hd B" using B by (metis last_replicate' less_le_trans zero_less_numeral)
  show ?thesis
  proof (cases "last B \<noteq> c")
    case ne: True
    then show ?thesis using assms True by auto
  next
    case False
    then have "B @ [c] = replicate (Suc (length B)) (hd B)"
      using B(1) l by (metis replicate_Suc replicate_append_same)
    then show ?thesis using assms True False B l
      by (cases "B") (auto split: if_splits)
  qed
next
  case False
  then show ?thesis using assms
    by (auto split: if_splits simp: butlast_append)
qed

lemma butlast_ne: "butlast B \<noteq> [] \<Longrightarrow> 2 \<le> length B"
  by (cases B; cases "tl B") auto

lemma single_last: "B \<noteq> [] \<Longrightarrow> butlast B = [] \<Longrightarrow> B = [last B]"
  by (metis append_butlast_last_id append_Nil)

lemma expand_step:
  assumes "ainv r B" "astep r B (Some c) = (sg, r', B')"
  shows "concat (map expand (opt_list sg)) @ B' = B @ [c]"
proof (cases r)
  case True
  then have B: "B = replicate (length B) (hd B)" "2 \<le> length B" "length B \<le> 0x7e"
    using assms(1) by simp_all
  have l: "last B = hd B" using B by (metis last_replicate' less_le_trans zero_less_numeral)
  show ?thesis
  proof (cases "last B \<noteq> c")
    case ne: True
    then have "sg = Some (Run (length B) (hd B))" "B' = [c]" using assms(2) True by auto
    then show ?thesis using B(1) by simp
  next
    case False
    then have eq: "B @ [c] = replicate (Suc (length B)) (hd B)"
      using B(1) l by (metis replicate_Suc replicate_append_same)
    show ?thesis
    proof (cases "length B + 1 = 0x7f")
      case full: True
      then have "sg = Some (Run (length B + 1) (hd B))" "B' = []"
        using assms(2) True False by auto
      then show ?thesis using eq by simp
    next
      case part: False
      then have "sg = None" "B' = B @ [c]"
        using assms(2) True False by auto
      then show ?thesis by simp
    qed
  qed
next
  case False
  then show ?thesis using assms
    by (auto split: if_splits simp: snoc_eq_iff_butlast intro: single_last single_last [symmetric])
qed

lemma expand_last:
  assumes "ainv r B"
  shows "concat (map expand (opt_list (fst (astep r B None)))) = B"
  using assms by (cases r) auto

lemma seg_ok_step:
  assumes "ainv r B" "astep r B ch = (Some sg, r', B')"
  shows "seg_ok sg"
proof (cases r)
  case True
  then show ?thesis using assms by (cases ch) (auto split: if_splits)
next
  case False
  then show ?thesis using assms butlast_ne [of B]
    by (cases ch) (auto split: if_splits simp: Suc_le_eq)
qed

lemma first_ok_emit:
  assumes "astep r B ch = (Some sg, r', B')"
  shows "first_ok r B sg"
  using assms by (cases r; cases ch) (auto split: if_splits)

lemma first_ok_silent:
  assumes "ainv r B" "astep r B ch = (None, r', B')" "first_ok r' B' sg"
  shows "first_ok r B sg"
proof (cases r)
  case True
  then have "B \<noteq> []" using assms(1) by auto
  then show ?thesis using assms True
    by (cases ch; cases sg) (auto split: if_splits)
next
  case False
  show ?thesis
  proof (cases sg)
    case (Run n b)
    then show ?thesis using assms False
      by (cases ch; cases B) (auto split: if_splits)
  next
    case (Literal xs)
    then show ?thesis using False by simp
  qed
qed

lemma not_joinable_next:
  assumes "ainv r B" "astep r B (Some c) = (Some sg, r', B')" "first_ok r' B' nx"
  shows "\<not> joinable sg nx"
proof (cases r)
  case True
  then have B: "B = replicate (length B) (hd B)" "2 \<le> length B" "length B \<le> 0x7e"
    using assms(1) by simp_all
  have l: "last B = hd B" using B by (metis last_replicate' less_le_trans zero_less_numeral)
  show ?thesis using assms True l
    by (cases nx) (auto split: if_splits)
next
  case False
  then show ?thesis using assms
    by (cases nx) (auto split: if_splits)
qed

lemma aenc_chain:
  "ainv r B \<Longrightarrow>
   no_joinable (aenc r B cs) \<and> (case aenc r B cs of [] \<Rightarrow> True | sg # _ \<Rightarrow> first_ok r B sg)"
proof (induction cs arbitrary: r B)
  case Nil
  then show ?case
    by (cases "astep r B None"; cases "fst (astep r B None)") (auto dest: first_ok_emit)
next
  case (Cons c cs)
  obtain sg r' B' where st: "astep r B (Some c) = (sg, r', B')"
    by (cases "astep r B (Some c)")
  have inv': "ainv r' B'" using ainv_step [OF Cons.prems st] .
  note ih = Cons.IH [OF inv']
  show ?case
  proof (cases sg)
    case None
    then show ?thesis using ih st first_ok_silent [OF Cons.prems st [unfolded None]]
      by (auto split: list.splits)
  next
    case (Some x)
    have f: "first_ok r B x" using st Some first_ok_emit by blast
    show ?thesis
    proof (cases "aenc r' B' cs")
      case Nil
      then show ?thesis using st Some f by simp
    next
      case (Cons nx rest)
      then have "first_ok r' B' nx" using ih by simp
      then have "\<not> joinable x nx"
        using not_joinable_next [OF Cons.prems st [unfolded Some]] by blast
      then show ?thesis using st Some f Cons ih by simp
    qed
  qed
qed

lemma aenc_expand: "ainv r B \<Longrightarrow> concat (map expand (aenc r B cs)) = B @ cs"
proof (induction cs arbitrary: r B)
  case Nil
  then show ?case using expand_last by simp
next
  case (Cons c cs)
  obtain sg r' B' where st: "astep r B (Some c) = (sg, r', B')"
    by (cases "astep r B (Some c)")
  have inv': "ainv r' B'" using ainv_step [OF Cons.prems st] .
  have "concat (map expand (aenc r B (c # cs))) = concat (map expand (opt_list sg)) @ B' @ cs"
    using st Cons.IH [OF inv'] by simp
  also have "\<dots> = B @ c # cs"
    using expand_step [OF Cons.prems st] by (metis append.assoc append_Cons append_Nil)
  finally show ?case .
qed

lemma aenc_seg_ok: "ainv r B \<Longrightarrow> list_all seg_ok (aenc r B cs)"
proof (induction cs arbitrary: r B)
  case Nil
  then show ?case
    using seg_ok_step [of r B None]
    by (cases "astep r B None"; cases "fst (astep r B None)") auto
next
  case (Cons c cs)
  obtain sg r' B' where st: "astep r B (Some c) = (sg, r', B')"
    by (cases "astep r B (Some c)")
  have inv': "ainv r' B'" using ainv_step [OF Cons.prems st] .
  show ?case using st Cons.IH [OF inv'] seg_ok_step [OF Cons.prems, of "Some c"]
    by (cases sg) auto
qed

section \<open>The code follows the loop on the buffered bytes\<close>

lemma at_last: "B \<noteq> [] \<Longrightarrow> at (B @ pad) (int (length B) - 1) = last B"
  by (simp add: at_def nth_append last_conv_nth nat_diff_distrib')

lemma at_last2:
  assumes "2 \<le> length B"
  shows "at (B @ pad) (int (length B) - 2) = last (butlast B)"
proof -
  have "butlast B \<noteq> []" using assms by (cases B; cases "tl B") auto
  then have "last (butlast B) = butlast B ! (length (butlast B) - 1)"
    by (rule last_conv_nth)
  also have "\<dots> = B ! (length B - 2)"
    using assms by (simp add: nth_butlast numeral_2_eq_2)
  finally have e: "last (butlast B) = B ! (length B - 2)" .
  have lt: "length B - 2 < length B" using assms by arith
  have n: "nat (int (length B) - 2) = length B - 2" using assms by arith
  show ?thesis by (simp add: at_def nth_append n lt e)
qed

lemma at_hd: "B \<noteq> [] \<Longrightarrow> at (B @ pad) 0 = hd B"
  by (simp add: at_def nth_append hd_conv_nth)

lemma store_mkenc:
  "length B + length pad = 0x81 \<Longrightarrow> length B \<le> 0x80 \<Longrightarrow>
   enc_store (Some c) (mkenc r B pad) = Some (mkenc r (B @ [c]) (tl pad))"
  by (cases pad) (simp_all add: enc_store_def mkenc_def in_buf_def list_update_append)

lemma store_mkenc_None: "enc_store None e = Some e"
  by (simp add: enc_store_def)

lemma put_seg_raw:
  "put_seg (Run n b) s = raw_run (int n) b s"
  "put_seg (Literal bs) s = raw_lit (int (length bs)) bs s"
  by (simp_all add: raw_run_def raw_lit_def)

lemma mkenc_sel [simp]:
  "len (mkenc r B pad) = int (length B)" "flush (mkenc r B pad) = 0"
  "repeat (mkenc r B pad) = r" "buf (mkenc r B pad) = B @ pad"
  "(mkenc r B pad)\<lparr>repeat := r'\<rparr> = mkenc r' B pad"
  "(mkenc r B pad)\<lparr>flush := f, repeat := r'\<rparr> = (mkenc r' B pad)\<lparr>flush := f\<rparr>"
  by (simp_all add: mkenc_def)

lemma run_mkenc:
  assumes "2 \<le> length B" "length B + length pad = 0x81"
  shows "enc_run ch (mkenc True B pad) s =
    (if last (butlast B) \<noteq> last B
     then Some ((mkenc False B pad)\<lparr>flush := int (length B) - 1\<rparr>, put_seg (Run (length B - 1) (hd B)) s)
     else if length B = 0x7f \<or> ch = None
     then Some ((mkenc False B pad)\<lparr>flush := int (length B)\<rparr>, put_seg (Run (length B) (hd B)) s)
     else Some (mkenc True B pad, s))"
proof -
  have ne: "B \<noteq> []" using assms(1) by (cases B) simp_all
  have a: "at (B @ pad) (int (length B) - 1) = last B"
    "at (B @ pad) (int (length B) - 2) = last (butlast B)"
    using at_last [OF ne] at_last2 [OF assms(1)] by simp_all
  have i: "in_buf (int (length B) - 2)" "in_buf (int (length B) - 1)"
    using assms ne by (simp_all add: in_buf_def)
  have l: "int (length B - 1) = int (length B) - 1" using assms(1) by arith
  have h: "at (B @ pad) 0 = hd B" using ne by (rule at_hd)
  have nz: "int (length B) - 1 \<noteq> 0" "length B \<noteq> 0" using assms(1) ne by simp_all
  have n1: "length B \<noteq> Suc 0" using assms(1) by arith
  show ?thesis
    unfolding enc_run_def put_seg_raw l raw_run_def [symmetric]
    by (simp add: Let_def a i h nz ne n1)
qed

lemma lit_mkenc:
  assumes "length B + length pad = 0x81"
  shows "enc_lit ch (mkenc False B pad) s =
    (if 2 \<le> length B \<and> last (butlast B) = last B
     then (if length B = 2 then Some (mkenc True B pad, s)
           else Some ((mkenc True B pad)\<lparr>flush := int (length B) - 2\<rparr>,
                      put_seg (Literal (take (length B - 2) B)) s))
     else if length B = 0x81
     then Some ((mkenc False B pad)\<lparr>flush := 0x80\<rparr>, put_seg (Literal (take 0x80 B)) s)
     else if ch = None
     then (if B = [] then Some (mkenc False B pad, s)
           else Some ((mkenc False B pad)\<lparr>flush := int (length B)\<rparr>, put_seg (Literal B) s))
     else Some (mkenc False B pad, s))"
proof (cases "2 \<le> length B")
  case True
  have ne: "B \<noteq> []" using True by (cases B) simp_all
  have a: "at (B @ pad) (int (length B) - 1) = last B"
    "at (B @ pad) (int (length B) - 2) = last (butlast B)"
    using at_last [OF ne] at_last2 [OF True] by simp_all
  have i: "in_buf (int (length B) - 2)" "in_buf (int (length B) - 1)"
    using assms True ne by (simp_all add: in_buf_def)
  have l: "int (length B - 2) = int (length B) - 2" using True by arith
  have n: "nat (int (length B) - 2) = length B - 2" using True by arith
  have m: "min (length B) (length B - 2) = length B - 2" by arith
  have le: "int (length B) \<le> 129" using assms by arith
  show ?thesis
    unfolding enc_lit_def put_seg_raw length_take l m raw_lit_def [symmetric]
    using True le by (simp add: Let_def a i n ne)
next
  case False
  have le: "int (length B) \<le> 129" using assms by arith
  show ?thesis
    unfolding enc_lit_def put_seg_raw raw_lit_def [symmetric]
    using False le by (simp add: Let_def)
qed


lemma shift_mkenc:
  assumes "k \<le> length B" "length B + length pad = 0x81"
  shows "\<exists>pad'. enc_shift ((mkenc r B pad)\<lparr>flush := int k\<rparr>) = Some (mkenc r (drop k B) pad') \<and>
     length (drop k B) + length pad' = 0x81"
proof -
  let ?pad = "drop (length B - k) (B @ pad)"
  have n: "nat (int (length B) - int k) = length B - k" using assms(1) by arith
  have t: "take (length B - k) (drop k (B @ pad)) = drop k B" using assms(1) by simp
  have "enc_shift ((mkenc r B pad)\<lparr>flush := int k\<rparr>) = Some (mkenc r (drop k B) ?pad)"
    using assms by (simp add: enc_shift_def n t mkenc_def)
  moreover have "length (drop k B) + length ?pad = 0x81" using assms by simp
  ultimately show ?thesis by blast
qed


lemma enc_iter_tail:
  "enc_iter ch e s =
    (if ch = None \<and> fin_err s then Some (True, e, s)
     else case enc_store ch e of None \<Rightarrow> None | Some e1 \<Rightarrow> enc_tail ch e1 s)"
  by (auto simp: enc_iter_def enc_tail_def split: option.splits)

lemma finish_flush:
  assumes "0 < k" "k \<le> length B1" "length B1 + length pad1 = 0x81"
    and "x = Some ((mkenc r2 B1 pad1)\<lparr>flush := int k\<rparr>, put_seg g s)"
  shows "good_exit (case x of
           None \<Rightarrow> None
         | Some (e2, s2) \<Rightarrow>
            if flush e2 \<noteq> 0 then
              (if fout_err s2 then Some (True, e2, s2)
               else map_option (\<lambda>e3. (False, e3, s2)) (enc_shift e2))
            else Some (False, e2, s2)) (Some g) r2 (drop k B1) s"
proof -
  obtain pad' where p: "enc_shift ((mkenc r2 B1 pad1)\<lparr>flush := int k\<rparr>) = Some (mkenc r2 (drop k B1) pad')"
     "length (drop k B1) + length pad' = 0x81"
    using shift_mkenc [OF assms(2,3)] by blast
  show ?thesis
    unfolding good_exit_def using assms(1) p
    by (cases "fout_err (put_seg g s)") (auto simp: assms(4) outcome_def)
qed

lemma finish_silent:
  assumes "length B1 + length pad1 = 0x81"
    and "x = Some (mkenc r2 B1 pad1, s)"
  shows "good_exit (case x of
           None \<Rightarrow> None
         | Some (e2, s2) \<Rightarrow>
            if flush e2 \<noteq> 0 then
              (if fout_err s2 then Some (True, e2, s2)
               else map_option (\<lambda>e3. (False, e3, s2)) (enc_shift e2))
            else Some (False, e2, s2)) None r2 B1 s"
  unfolding good_exit_def using assms by (auto simp: outcome_def)

lemma tail_tstep:
  assumes "length B1 + length pad1 = 0x81" "r \<longrightarrow> 2 \<le> length B1"
    and "tstep r B1 (ch = None) = (sg, r', B')"
  shows "good_exit (enc_tail ch (mkenc r B1 pad1) s) sg r' B' s"
proof (cases r)
  case True
  then have two: "2 \<le> length B1" using assms(2) by simp
  note rm = run_mkenc [OF two assms(1), of ch s]
  have l: "int (length B1) - 1 = int (length B1 - 1)" using two by arith
  show ?thesis
  proof (cases "last (butlast B1) \<noteq> last B1")
    case a: True
    have x: "enc_run ch (mkenc True B1 pad1) s =
        Some ((mkenc False B1 pad1)\<lparr>flush := int (length B1 - 1)\<rparr>, put_seg (Run (length B1 - 1) (hd B1)) s)"
      using rm [unfolded l] a by simp
    have t: "sg = Some (Run (length B1 - 1) (hd B1))" "r' = False" "B' = drop (length B1 - 1) B1"
      using assms(3) True a by (simp_all add: tstep_def Let_def)
    have k: "0 < length B1 - 1" "length B1 - 1 \<le> length B1" using two by arith+
    show ?thesis
      unfolding enc_tail_def t using finish_flush [OF k assms(1) x] True by simp
  next
    case a: False
    show ?thesis
    proof (cases "length B1 = 0x7f \<or> ch = None")
      case b: True
      have x: "enc_run ch (mkenc True B1 pad1) s =
        Some ((mkenc False B1 pad1)\<lparr>flush := int (length B1)\<rparr>, put_seg (Run (length B1) (hd B1)) s)"
        using rm a b by simp
      have t: "sg = Some (Run (length B1) (hd B1))" "r' = False" "B' = drop (length B1) B1"
        using assms(3) True a b by (simp_all add: tstep_def Let_def)
      have k: "0 < length B1" "length B1 \<le> length B1" using two by arith+
      show ?thesis
        unfolding enc_tail_def t using finish_flush [OF k assms(1) x] True by simp
    next
      case b: False
      have x: "enc_run ch (mkenc True B1 pad1) s = Some (mkenc True B1 pad1, s)"
        using rm a b by simp
      have t: "sg = None" "r' = True" "B' = B1"
        using assms(3) True a b by (simp_all add: tstep_def Let_def)
      show ?thesis
        unfolding enc_tail_def t using finish_silent [OF assms(1) x] True by simp
    qed
  qed
next
  case False
  note lm = lit_mkenc [OF assms(1), of ch s]
  show ?thesis
  proof (cases "2 \<le> length B1 \<and> last (butlast B1) = last B1")
    case a: True
    have l: "int (length B1) - 2 = int (length B1 - 2)" using a by arith
    show ?thesis
    proof (cases "length B1 = 2")
      case b: True
      have x: "enc_lit ch (mkenc False B1 pad1) s = Some (mkenc True B1 pad1, s)"
        using lm a b by simp
      have t: "sg = None" "r' = True" "B' = B1"
        using assms(3) False a b by (simp_all add: tstep_def Let_def)
      show ?thesis
        unfolding enc_tail_def t using finish_silent [OF assms(1) x] False by simp
    next
      case b: False
      have x: "enc_lit ch (mkenc False B1 pad1) s =
         Some ((mkenc True B1 pad1)\<lparr>flush := int (length B1 - 2)\<rparr>,
                      put_seg (Literal (take (length B1 - 2) B1)) s)"
        using lm [unfolded l] a b by simp
      have t: "sg = Some (Literal (take (length B1 - 2) B1))" "r' = True" "B' = drop (length B1 - 2) B1"
        using assms(3) False a b by (simp_all add: tstep_def Let_def)
      have k: "0 < length B1 - 2" "length B1 - 2 \<le> length B1" using a b by arith+
      show ?thesis
        unfolding enc_tail_def t using finish_flush [OF k assms(1) x] False by simp
    qed
  next
    case a: False
    show ?thesis
    proof (cases "length B1 = 0x81")
      case b: True
      have x: "enc_lit ch (mkenc False B1 pad1) s =
         Some ((mkenc False B1 pad1)\<lparr>flush := int 0x80\<rparr>, put_seg (Literal (take 0x80 B1)) s)"
        using lm a b by simp
      have t: "sg = Some (Literal (take 0x80 B1))" "r' = False" "B' = drop 0x80 B1"
        using assms(3) False a b by (simp_all add: tstep_def Let_def)
      have k: "(0::nat) < 0x80" "0x80 \<le> length B1" using b by simp_all
      show ?thesis
        unfolding enc_tail_def t using finish_flush [OF k assms(1) x] False by simp
    next
      case b: False
      show ?thesis
      proof (cases "ch = None \<and> B1 \<noteq> []")
        case c: True
        have x: "enc_lit ch (mkenc False B1 pad1) s =
           Some ((mkenc False B1 pad1)\<lparr>flush := int (length B1)\<rparr>, put_seg (Literal B1) s)"
          using lm a b c by simp
        have t: "sg = Some (Literal B1)" "r' = False" "B' = drop (length B1) B1"
          using assms(3) False a b c by (simp_all add: tstep_def Let_def)
        have k: "0 < length B1" "length B1 \<le> length B1" using c by simp_all
        show ?thesis
          unfolding enc_tail_def t using finish_flush [OF k assms(1) x] False by simp
      next
        case c: False
        have x: "enc_lit ch (mkenc False B1 pad1) s = Some (mkenc False B1 pad1, s)"
          using lm a b c by auto
        have t: "sg = None" "r' = False" "B' = B1"
          using assms(3) False a b c by (auto simp: tstep_def Let_def split: if_splits)
        show ?thesis
          unfolding enc_tail_def t using finish_silent [OF assms(1) x] False by simp
      qed
    qed
  qed
qed


lemma replicate_last_butlast:
  assumes "B = replicate (length B) b" "2 \<le> length B"
  shows "last (butlast B) = b" "last B = b" "hd B = b" "B \<noteq> []"
proof -
  obtain m where m: "length B = Suc (Suc m)" using assms(2) by (cases "length B"; cases "length B - 1") auto
  have B: "B = replicate (Suc (Suc m)) b" using assms(1) m by simp
  show "last B = b" by (subst B) simp
  show "hd B = b" by (subst B) simp
  show "B \<noteq> []" by (subst B) simp
  have "B = replicate (Suc m) b @ [b]" by (subst B) (simp add: replicate_append_same)
  then have "butlast B = replicate (Suc m) b" by (metis butlast_snoc)
  then show "last (butlast B) = b" by simp
qed

lemma tstep_astep:
  assumes "ainv r B"
  shows "tstep r (B @ opt_list ch) (ch = None) = astep r B ch"
proof (cases r)
  case True
  then have B: "B = replicate (length B) (hd B)" "2 \<le> length B" "length B \<le> 0x7e"
    using assms by simp_all
  note f = replicate_last_butlast [OF B(1,2)]
  show ?thesis
  proof (cases ch)
    case None
    then show ?thesis using True f B by (simp add: tstep_def Let_def)
  next
    case (Some c)
    then show ?thesis using True f B by (simp add: tstep_def Let_def)
  qed
next
  case False
  then have B: "length B \<le> 0x80" "2 \<le> length B \<longrightarrow> last (butlast B) \<noteq> last B"
    using assms by simp_all
  show ?thesis
  proof (cases ch)
    case None
    then show ?thesis using False B by (simp add: tstep_def Let_def)
  next
    case (Some c)
    show ?thesis
    proof (cases "B = []")
      case True
      then show ?thesis using False Some by (simp add: tstep_def Let_def)
    next
      case ne: False
      then obtain xs x where xs: "B = xs @ [x]" by (cases B rule: rev_cases) auto
      show ?thesis using False Some B(1) unfolding xs
        by (auto simp: tstep_def Let_def butlast_append)
    qed
  qed
qed

lemma iter_astep:
  assumes "length B + length pad = 0x81" "ainv r B" "astep r B ch = (sg, r', B')"
    and "\<not> (ch = None \<and> fin_err s)"
  shows "good_exit (enc_iter ch (mkenc r B pad) s) sg r' B' s"
proof -
  have le: "length B \<le> 0x80" using assms(2) by (cases r) simp_all
  have two: "r \<longrightarrow> 2 \<le> length (B @ opt_list ch)" using assms(2) by (cases r) simp_all
  have t: "tstep r (B @ opt_list ch) (ch = None) = (sg, r', B')"
    using tstep_astep [OF assms(2)] assms(3) by simp
  show ?thesis
  proof (cases ch)
    case None
    have "enc_iter ch (mkenc r B pad) s = enc_tail ch (mkenc r B pad) s"
      using assms(4) None by (simp add: enc_iter_tail store_mkenc_None)
    then show ?thesis
      using tail_tstep [of "B @ opt_list ch" pad r ch sg r' B' s] assms(1) two t None by simp
  next
    case (Some c)
    have l: "length (B @ opt_list ch) + length (tl pad) = 0x81"
      using assms(1) le Some by (cases pad) simp_all
    have "enc_iter ch (mkenc r B pad) s = enc_tail ch (mkenc r (B @ opt_list ch) (tl pad)) s"
      using Some store_mkenc [OF assms(1) le] by (simp add: enc_iter_tail)
    then show ?thesis
      using tail_tstep [OF l two t, of s] by simp
  qed
qed


lemma encode_loop_aloop:
  "length B + length pad = 0x81 \<Longrightarrow> ainv r B \<Longrightarrow>
   \<exists>e'. encode_loop (mkenc r B pad) s = Some (e', aloop r B s)"
proof (induction r B s arbitrary: pad rule: aloop.induct)
  case (1 r B s)
  obtain ch s1 where g: "fgetc s = (ch, s1)" by (cases "fgetc s")
  show ?case
  proof (cases "ch = None \<and> fin_err s1")
    case True
    then have "enc_iter ch (mkenc r B pad) s1 = Some (True, mkenc r B pad, s1)"
      by (simp add: enc_iter_def)
    then have "encode_loop (mkenc r B pad) s = Some (mkenc r B pad, s1)"
      using g by (subst encode_loop.simps) simp
    moreover have "aloop r B s = s1" using g True by (subst aloop.simps) simp
    ultimately show ?thesis by simp
  next
    case False
    obtain sg r' B' where a: "astep r B ch = (sg, r', B')" by (cases "astep r B ch")
    let ?s2 = "outcome sg s1"
    let ?brk = "sg \<noteq> None \<and> fout_err ?s2"
    obtain e' where it: "enc_iter ch (mkenc r B pad) s1 = Some (?brk, e', ?s2)"
      and cont: "\<not> ?brk \<longrightarrow> (\<exists>pad'. e' = mkenc r' B' pad' \<and> length B' + length pad' = 0x81)"
      using iter_astep [OF "1.prems" a False] unfolding good_exit_def by blast
    show ?thesis
    proof (cases "?brk \<or> ch = None")
      case stop: True
      have "encode_loop (mkenc r B pad) s = Some (e', ?s2)"
        using g it stop by (subst encode_loop.simps) auto
      moreover have "aloop r B s = ?s2" using g False a stop by (subst aloop.simps) auto
      ultimately show ?thesis by simp
    next
      case go: False
      then obtain pad' where e': "e' = mkenc r' B' pad'" and l: "length B' + length pad' = 0x81"
        using cont by blast
      from go obtain c where c: "ch = Some c" by auto
      have inv: "ainv r' B'" using ainv_step [OF "1.prems"(2) a [unfolded c]] .
      have "encode_loop (mkenc r B pad) s = encode_loop (mkenc r' B' pad') ?s2"
        using g it go e' by (subst encode_loop.simps) auto
      moreover have "aloop r B s = aloop r' B' ?s2" using g False a go by (subst aloop.simps) auto
      moreover have "\<exists>e''. encode_loop (mkenc r' B' pad') ?s2 = Some (e'', aloop r' B' ?s2)"
        using "1.IH" [OF g [symmetric] False a [symmetric] refl go l inv] .
      ultimately show ?thesis by simp
    qed
  qed
qed

section \<open>The encoder on streams without failure\<close>

lemma outcome_clean:
  "clean s \<Longrightarrow> outcome sg s = s\<lparr>fout_data := fout_data s @ concat (map ser (opt_list sg))\<rparr>"
proof (cases sg)
  case None
  then show ?thesis by (simp add: outcome_def)
next
  case (Some x)
  assume c: "clean s"
  show ?thesis
    using Some c by (cases x) (simp_all add: outcome_def fputc_clean fwrite_clean)
qed

lemma aloop_clean:
  "clean s \<Longrightarrow> ainv r B \<Longrightarrow>
   aloop r B s = s\<lparr>fin_data := [], fout_data := fout_data s @ concat (map ser (aenc r B (fin_data s)))\<rparr>"
proof (induction r B s rule: aloop.induct)
  case (1 r B s)
  show ?case
  proof (cases "fin_data s")
    case Nil
    then have g: "fgetc s = (None, s)" using "1.prems"(1) by (simp add: fgetc_clean)
    obtain sg r' B' where a: "astep r B None = (sg, r', B')" by (cases "astep r B None")
    have "aloop r B s = outcome sg s"
      using g a "1.prems"(1) by (subst aloop.simps) (simp add: clean_def)
    then show ?thesis using Nil a "1.prems"(1) by (simp add: outcome_clean)
  next
    case (Cons c cs)
    let ?s1 = "s\<lparr>fin_data := cs\<rparr>"
    have g: "fgetc s = (Some c, ?s1)" using "1.prems"(1) Cons by (simp add: fgetc_clean)
    have c1: "clean ?s1" using "1.prems"(1) by simp
    obtain sg r' B' where a: "astep r B (Some c) = (sg, r', B')" by (cases "astep r B (Some c)")
    let ?s2 = "outcome sg ?s1"
    have o: "?s2 = ?s1\<lparr>fout_data := fout_data ?s1 @ concat (map ser (opt_list sg))\<rparr>"
      using c1 by (rule outcome_clean)
    have c2: "clean ?s2" using c1 by (simp add: o)
    have nb: "\<not> (sg \<noteq> None \<and> fout_err ?s2 \<or> Some c = None)"
      using c2 by (simp add: clean_def)
    have inv: "ainv r' B'" using ainv_step [OF "1.prems"(2) a] .
    have "aloop r B s = aloop r' B' ?s2"
      using g a nb by (subst aloop.simps) auto
    also have "\<dots> = ?s2\<lparr>fin_data := [], fout_data := fout_data ?s2 @ concat (map ser (aenc r' B' (fin_data ?s2)))\<rparr>"
      using "1.IH" [OF g [symmetric] _ a [symmetric] refl nb c2 inv] by simp
    finally show ?thesis using Cons a by (simp add: o)
  qed
qed

lemma unat_run_byte: "n < 0x100 \<Longrightarrow> unat (word_of_int (int n) :: byte) = n"
  by (simp add: unat_of_nat)

lemma unat_lit_byte:
  assumes "1 \<le> k" "k \<le> 0x80"
  shows "unat (word_of_int (0x100 - int k) :: byte) = 0x100 - k"
proof -
  have e: "(0x100 :: int) - int k = int (0x100 - k)" using assms by arith
  have "unat (word_of_int (int (0x100 - k)) :: byte) = 0x100 - k"
    using assms by (intro unat_run_byte) arith
  then show ?thesis by (simp only: e)
qed

lemma spec_segments_run:
  assumes "unat l = n" "2 \<le> n" "n \<le> 0x7f"
  shows "spec_segments (l # b # rest) = map_option (\<lambda>(sg, r). (Run n b # sg, r)) (spec_segments rest)"
proof -
  have "l \<noteq> 0" using assms by auto
  then show ?thesis using assms by simp
qed

lemma spec_segments_lit:
  assumes "unat l = 0x100 - length bs" "1 \<le> length bs" "length bs \<le> 0x80"
  shows "spec_segments (l # bs @ rest) = map_option (\<lambda>(sg, r). (Literal bs # sg, r)) (spec_segments rest)"
proof -
  have nz: "l \<noteq> 0" using assms by auto
  have big: "\<not> unat l < 0x80" using assms by arith
  have d: "0x100 - unat l = length bs" using assms by arith
  show ?thesis using nz big by (simp add: d)
qed

lemma spec_segments_ser:
  "list_all seg_ok sgs \<Longrightarrow> spec_segments (concat (map ser sgs)) = Some (sgs, [])"
proof (induction sgs)
  case Nil
  then show ?case by simp
next
  case (Cons x sgs)
  then have ih: "spec_segments (concat (map ser sgs)) = Some (sgs, [])" by simp
  show ?case
  proof (cases x)
    case (Run n b)
    then have n: "2 \<le> n" "n \<le> 0x7f" using Cons.prems by simp_all
    have u: "unat (word_of_int (int n) :: byte) = n" using n by (intro unat_run_byte) simp
    have "concat (map ser (x # sgs)) = word_of_int (int n) # b # concat (map ser sgs)"
      using Run by (simp del: of_int_of_nat_eq)
    then show ?thesis using spec_segments_run [OF u n] ih Run by (simp del: of_int_of_nat_eq)
  next
    case (Literal bs)
    then have k: "1 \<le> length bs" "length bs \<le> 0x80" using Cons.prems by simp_all
    have u: "unat (word_of_int (0x100 - int (length bs)) :: byte) = 0x100 - length bs"
      using k by (rule unat_lit_byte)
    have "concat (map ser (x # sgs)) = word_of_int (0x100 - int (length bs)) # bs @ concat (map ser sgs)"
      using Literal by (simp del: of_int_diff of_int_of_nat_eq)
    then show ?thesis using spec_segments_lit [OF u k] ih Literal by (simp del: of_int_diff of_int_of_nat_eq)
  qed
qed

lemma enc_init_mkenc: "enc_init = mkenc False [] (replicate (0x80 + 1) 0)"
  by (simp add: enc_init_def mkenc_def)

lemma encode_aloop:
  "encode s = Some (if fin_err (aloop False [] s) then (- EIO, PR_ERR ''Input error.'' (aloop False [] s))
                    else if fout_err (aloop False [] s) then (- EIO, PR_ERR ''Output error.'' (aloop False [] s))
                    else (0, aloop False [] s))"
proof -
  have "\<exists>e'. encode_loop (mkenc False [] (replicate (0x80 + 1) 0)) s = Some (e', aloop False [] s)"
    by (rule encode_loop_aloop) simp_all
  then show ?thesis by (auto simp: encode_def enc_init_mkenc)
qed

lemma encode_ideal:
  "encode (ideal S) = Some (0, (ideal [])\<lparr>fout_data := concat (map ser (aenc False [] S))\<rparr>)"
proof -
  have c: "clean (ideal S)" by (simp add: clean_def ideal_def)
  have "aloop False [] (ideal S) = (ideal [])\<lparr>fout_data := concat (map ser (aenc False [] S))\<rparr>"
    using aloop_clean [OF c, of False "[]"] by (simp add: ideal_def)
  then show ?thesis by (simp add: encode_aloop ideal_def)
qed

lemma decode_ser:
  assumes "list_all seg_ok sgs"
  shows "decode (ideal (concat (map ser sgs))) = (0, (ideal [])\<lparr>fout_data := concat (map expand sgs)\<rparr>)"
proof -
  have c: "clean (ideal (concat (map ser sgs)))" by (simp add: clean_def ideal_def)
  have "decode_loop 0 (ideal (concat (map ser sgs))) =
      (0, (ideal (concat (map ser sgs)))\<lparr>fin_data := [], fout_data := concat (map expand sgs)\<rparr>)"
    using decode_loop_clean [OF c refl] spec_segments_ser [OF assms] by (simp add: ideal_def)
  then show ?thesis by (simp add: decode_def ideal_def)
qed

section \<open>Reachable states, failures and messages\<close>

lemma emitted_aenc: "emitted S = Some (aenc False [] S)"
proof -
  have ok: "list_all seg_ok (aenc False [] S)" by (rule aenc_seg_ok) simp
  show ?thesis
    using spec_segments_ser [OF ok] by (simp add: emitted_def encode_ideal)
qed

lemma enc_reach_mkenc:
  "enc_reach s0 e s \<Longrightarrow> \<exists>r B pad. e = mkenc r B pad \<and> length B + length pad = 0x81 \<and> ainv r B"
proof (induction rule: enc_reach.induct)
  case start
  have "enc_init = mkenc False [] (replicate (0x80 + 1) 0) \<and>
      length ([] :: byte list) + length (replicate (0x80 + 1) (0 :: byte)) = 0x81 \<and> ainv False []"
    by (simp add: enc_init_mkenc)
  then show ?case by blast
next
  case (pass e s c s1 e' s')
  then obtain r B pad where e: "e = mkenc r B pad" and l: "length B + length pad = 0x81"
    and inv: "ainv r B" by blast
  obtain sg r' B' where a: "astep r B (Some c) = (sg, r', B')" by (cases "astep r B (Some c)")
  have "good_exit (enc_iter (Some c) (mkenc r B pad) s1) sg r' B' s1"
    by (rule iter_astep [OF l inv a]) simp
  then obtain pad' where "e' = mkenc r' B' pad'" "length B' + length pad' = 0x81"
    using pass.hyps(3) e unfolding good_exit_def by auto
  moreover have "ainv r' B'" using ainv_step [OF inv a] .
  ultimately show ?case by blast
qed

lemma enc_iter_total:
  assumes "length B + length pad = 0x81" "ainv r B"
  shows "enc_iter ch (mkenc r B pad) s \<noteq> None"
proof (cases "ch = None \<and> fin_err s")
  case True
  then show ?thesis by (simp add: enc_iter_def)
next
  case False
  obtain sg r' B' where a: "astep r B ch = (sg, r', B')" by (cases "astep r B ch")
  show ?thesis using iter_astep [OF assms a False] unfolding good_exit_def by auto
qed

lemma fgetc_fresh:
  assumes "fresh s" "fgetc s = (ch, s1)"
  shows "late_gets s1 = 0" "late_puts s1 = 0" "\<not> fout_err s1" "ch \<noteq> None \<Longrightarrow> fresh s1"
    "fout_room s1 = fout_room s" "stderr_lines s1 = stderr_lines s"
  using assms
  by (auto simp: fresh_def fgetc_def count_get_def failed_def split: list.splits if_splits)

lemma fputc_fresh:
  assumes "fresh s" "fputc c s = (ok, s')"
  shows "late_gets s' = 0" "late_puts s' = 0" "\<not> fin_err s'" "ok = (\<not> fout_err s')"
    "ok \<Longrightarrow> fresh s'" "fout_room s = None \<Longrightarrow> ok \<and> fout_room s' = None"
    "fout_room s = Some 0 \<Longrightarrow> \<not> ok"
    "fout_room s = Some (Suc k) \<Longrightarrow> ok \<and> fout_room s' = Some k"
  using assms
  by (auto simp: fresh_def fputc_def count_put_def failed_def split: option.splits if_splits)

lemma put_seg_fresh:
  assumes "fresh s"
  shows "late_gets (put_seg x s) = 0 \<and> late_puts (put_seg x s) \<le> 1 \<and> \<not> fin_err (put_seg x s) \<and>
     (\<not> fout_err (put_seg x s) \<longrightarrow> late_puts (put_seg x s) = 0)"
  using assms
  by (cases x)
     (auto simp: fresh_def fputc_def fwrite_def count_put_def failed_def split: option.splits if_splits)

lemma outcome_fresh:
  assumes "fresh s"
  shows "late_gets (outcome sg s) = 0" "late_puts (outcome sg s) \<le> 1" "\<not> fin_err (outcome sg s)"
    "\<not> fout_err (outcome sg s) \<Longrightarrow> fresh (outcome sg s)"
  using put_seg_fresh [OF assms] assms
  by (cases sg; auto simp: outcome_def fresh_def)+

lemma aloop_fresh:
  "fresh s \<Longrightarrow> late_gets (aloop r B s) = 0 \<and> late_puts (aloop r B s) \<le> 1"
proof (induction r B s rule: aloop.induct)
  case (1 r B s)
  obtain ch s1 where g: "fgetc s = (ch, s1)" by (cases "fgetc s")
  note f = fgetc_fresh [OF "1.prems" g]
  show ?case
  proof (cases "ch = None \<and> fin_err s1")
    case True
    then have "aloop r B s = s1" using g by (subst aloop.simps) simp
    then show ?thesis using f by simp
  next
    case False
    obtain sg r' B' where a: "astep r B ch = (sg, r', B')" by (cases "astep r B ch")
    have f1: "fresh s1" using f False by (auto simp: fresh_def)
    note o = outcome_fresh [OF f1, of sg]
    show ?thesis
    proof (cases "(sg \<noteq> None \<and> fout_err (outcome sg s1)) \<or> ch = None")
      case stop: True
      then have "aloop r B s = outcome sg s1" using g False a by (subst aloop.simps) auto
      then show ?thesis using o by simp
    next
      case go: False
      then have "aloop r B s = aloop r' B' (outcome sg s1)"
        using g False a by (subst aloop.simps) auto
      moreover have "fresh (outcome sg s1)"
        using go o(4) f1 by (cases sg) (auto simp: outcome_def)
      ultimately show ?thesis
        using "1.IH" [OF g [symmetric] False a [symmetric] refl go] by simp
    qed
  qed
qed


lemma put_run_fresh_None:
  "fresh s \<Longrightarrow> fout_room s = None \<Longrightarrow> put_run ch m s = (m', s') \<Longrightarrow> fresh s' \<and> fout_room s' = None"
proof (induction ch m s arbitrary: m' s' rule: put_run.induct)
  case (1 ch m s)
  obtain ok s1 where p: "fputc ch s = (ok, s1)" by (cases "fputc ch s")
  note f = fputc_fresh [OF "1.prems"(1) p]
  have ok: "ok" and r1: "fout_room s1 = None" using f(6) "1.prems"(2) by simp_all
  have f1: "fresh s1" using f(5) ok by simp
  show ?case
  proof (cases "m - 1 \<noteq> 0")
    case True
    then have "put_run ch (m - 1) s1 = (m', s')"
      using "1.prems"(3) p ok by (subst (asm) put_run.simps) simp
    then show ?thesis using "1.IH" [OF p [symmetric] _ True f1 r1] ok by simp
  next
    case False
    then have "s' = s1" using "1.prems"(3) p ok by (subst (asm) put_run.simps) simp
    then show ?thesis using f1 r1 by simp
  qed
qed

lemma decode_loop_room_None:
  "fresh s \<Longrightarrow> fout_room s = None \<Longrightarrow> late_calls (snd (decode_loop m s)) = (0, 0)"
proof (induction m s rule: decode_loop.induct)
  case (1 m s)
  obtain x s1 where g: "fgetc s = (x, s1)" by (cases "fgetc s")
  note f = fgetc_fresh [OF "1.prems"(1) g]
  show ?case
  proof (cases x)
    case None
    then have "decode_loop m s = (m, s1)" using g by (subst decode_loop.simps) simp
    then show ?thesis using f by (simp add: late_calls_def)
  next
    case (Some ch)
    have f1: "fresh s1" and r1: "fout_room s1 = None" using f Some "1.prems"(2) by simp_all
    show ?thesis
    proof (cases "m = 0")
      case True
      show ?thesis
      proof (cases "ch = 0")
        case z: True
        then have "decode_loop m s = (m, s1)" using g Some True by (subst decode_loop.simps) simp
        then show ?thesis using f by (simp add: late_calls_def)
      next
        case nz: False
        then have "decode_loop m s = decode_loop (unat ch) s1"
          using g Some True by (subst decode_loop.simps) simp
        then show ?thesis
          using "1.IH"(1) [OF g [symmetric] Some True nz f1 r1] by simp
      qed
    next
      case m: False
      show ?thesis
      proof (cases "m < 0x80")
        case True
        obtain m' s2 where p: "put_run ch m s1 = (m', s2)" by (cases "put_run ch m s1")
        have "decode_loop m s = decode_loop m' s2"
          using g Some m True p by (subst decode_loop.simps) simp
        moreover have "fresh s2 \<and> fout_room s2 = None"
          using put_run_fresh_None [OF f1 r1 p] .
        ultimately show ?thesis
          using "1.IH"(2) [OF g [symmetric] Some m True p [symmetric]] by simp
      next
        case False
        obtain ok s2 where p: "fputc ch s1 = (ok, s2)" by (cases "fputc ch s1")
        note q = fputc_fresh [OF f1 p]
        have ok: "ok" and r2: "fout_room s2 = None" using q(6) r1 by simp_all
        have "decode_loop m s = decode_loop ((m + 1) mod 0x100) s2"
          using g Some m False p ok by (subst decode_loop.simps) simp
        then show ?thesis
          using "1.IH"(3) [OF g [symmetric] Some m False p [symmetric] _ _ r2] ok q(5) by simp
      qed
    qed
  qed
qed

lemma decode_loop_literal_full:
  "fresh s \<Longrightarrow> fout_room s = Some k \<Longrightarrow> 0x80 \<le> m \<Longrightarrow> k < 0x100 - m \<Longrightarrow>
   late_calls (snd (decode_loop m s)) = (0, 0)"
proof (induction k arbitrary: m s)
  case 0
  obtain x s1 where g: "fgetc s = (x, s1)" by (cases "fgetc s")
  note f = fgetc_fresh [OF "0.prems"(1) g]
  show ?case
  proof (cases x)
    case None
    then have "decode_loop m s = (m, s1)" using g by (subst decode_loop.simps) simp
    then show ?thesis using f by (simp add: late_calls_def)
  next
    case (Some ch)
    have f1: "fresh s1" and r1: "fout_room s1 = Some 0" using f Some "0.prems"(2) by simp_all
    obtain ok s2 where p: "fputc ch s1 = (ok, s2)" by (cases "fputc ch s1")
    note q = fputc_fresh [OF f1 p]
    have "\<not> ok" using q(7) r1 by simp
    then have "decode_loop m s = (m, s2)"
      using g Some "0.prems"(3) p by (subst decode_loop.simps) simp
    then show ?thesis using q by (simp add: late_calls_def)
  qed
next
  case (Suc k)
  obtain x s1 where g: "fgetc s = (x, s1)" by (cases "fgetc s")
  note f = fgetc_fresh [OF Suc.prems(1) g]
  show ?case
  proof (cases x)
    case None
    then have "decode_loop m s = (m, s1)" using g by (subst decode_loop.simps) simp
    then show ?thesis using f by (simp add: late_calls_def)
  next
    case (Some ch)
    have f1: "fresh s1" and r1: "fout_room s1 = Some (Suc k)" using f Some Suc.prems(2) by simp_all
    obtain ok s2 where p: "fputc ch s1 = (ok, s2)" by (cases "fputc ch s1")
    note q = fputc_fresh [OF f1 p]
    have ok: "ok" and r2: "fout_room s2 = Some k" using q(8) [OF r1] by simp_all
    have l: "(m + 1) mod 0x100 = m + 1" using Suc.prems(4) by simp
    have "decode_loop m s = decode_loop (m + 1) s2"
      using g Some Suc.prems(3) p ok l by (subst decode_loop.simps) simp
    moreover have "late_calls (snd (decode_loop (m + 1) s2)) = (0, 0)"
      using Suc.prems q(5) ok by (intro Suc.IH [OF _ r2]) simp_all
    ultimately show ?thesis by simp
  qed
qed


lemma stderr_fputc [simp]: "stderr_lines (snd (fputc c s)) = stderr_lines s"
  by (simp add: fputc_def count_put_def split: option.splits)

lemma stderr_fwrite [simp]: "stderr_lines (fwrite bs s) = stderr_lines s"
  by (simp add: fwrite_def count_put_def split: option.splits)

lemma stderr_fgetc [simp]: "stderr_lines (snd (fgetc s)) = stderr_lines s"
  by (simp add: fgetc_def count_get_def split: list.splits)

lemma stderr_put_run: "stderr_lines (snd (put_run ch m s)) = stderr_lines s"
proof (induction ch m s rule: put_run.induct)
  case (1 ch m s)
  obtain ok s1 where p: "fputc ch s = (ok, s1)" by (cases "fputc ch s")
  have e: "stderr_lines s1 = stderr_lines s" using stderr_fputc [of ch s] p by simp
  show ?case
  proof (cases "ok \<and> m - 1 \<noteq> 0")
    case True
    then have "put_run ch m s = put_run ch (m - 1) s1" using p by (subst put_run.simps) simp
    then show ?thesis using "1.IH" [OF p [symmetric]] True e by simp
  next
    case False
    then have "snd (put_run ch m s) = s1"
      using p by (subst put_run.simps) (auto split: bool.splits)
    then show ?thesis using e by simp
  qed
qed

lemma stderr_decode_loop: "stderr_lines (snd (decode_loop m s)) = stderr_lines s"
proof (induction m s rule: decode_loop.induct)
  case (1 m s)
  obtain x s1 where g: "fgetc s = (x, s1)" by (cases "fgetc s")
  have e1: "stderr_lines s1 = stderr_lines s" using stderr_fgetc [of s] g by simp
  show ?case
  proof (cases x)
    case None
    then have "decode_loop m s = (m, s1)" using g by (subst decode_loop.simps) simp
    then show ?thesis using e1 by simp
  next
    case (Some ch)
    show ?thesis
    proof (cases "m = 0")
      case True
      show ?thesis
      proof (cases "ch = 0")
        case z: True
        then have "decode_loop m s = (m, s1)" using g Some True by (subst decode_loop.simps) simp
        then show ?thesis using e1 by simp
      next
        case nz: False
        then have "decode_loop m s = decode_loop (unat ch) s1"
          using g Some True by (subst decode_loop.simps) simp
        then show ?thesis using "1.IH"(1) [OF g [symmetric] Some True nz] e1 by simp
      qed
    next
      case m: False
      show ?thesis
      proof (cases "m < 0x80")
        case True
        obtain m' s2 where p: "put_run ch m s1 = (m', s2)" by (cases "put_run ch m s1")
        have e2: "stderr_lines s2 = stderr_lines s1" using stderr_put_run [of ch m s1] p by simp
        have "decode_loop m s = decode_loop m' s2"
          using g Some m True p by (subst decode_loop.simps) simp
        then show ?thesis
          using "1.IH"(2) [OF g [symmetric] Some m True p [symmetric]] e1 e2 by simp
      next
        case False
        obtain ok s2 where p: "fputc ch s1 = (ok, s2)" by (cases "fputc ch s1")
        have e2: "stderr_lines s2 = stderr_lines s1" using stderr_fputc [of ch s1] p by simp
        show ?thesis
        proof (cases ok)
          case True
          then have "decode_loop m s = decode_loop ((m + 1) mod 0x100) s2"
            using g Some m False p by (subst decode_loop.simps) simp
          then show ?thesis
            using "1.IH"(3) [OF g [symmetric] Some m False p [symmetric]] True e1 e2 by simp
        next
          case no: False
          then have "decode_loop m s = (m, s2)"
            using g Some m False p by (subst decode_loop.simps) simp
          then show ?thesis using e1 e2 by simp
        qed
      qed
    qed
  qed
qed

lemma stderr_outcome [simp]: "stderr_lines (outcome sg s) = stderr_lines s"
  by (cases sg; cases "the sg") (simp_all add: outcome_def)

lemma stderr_aloop: "stderr_lines (aloop r B s) = stderr_lines s"
proof (induction r B s rule: aloop.induct)
  case (1 r B s)
  obtain ch s1 where g: "fgetc s = (ch, s1)" by (cases "fgetc s")
  have e1: "stderr_lines s1 = stderr_lines s" using stderr_fgetc [of s] g by simp
  show ?case
  proof (cases "ch = None \<and> fin_err s1")
    case True
    then have "aloop r B s = s1" using g by (subst aloop.simps) simp
    then show ?thesis using e1 by simp
  next
    case False
    obtain sg r' B' where a: "astep r B ch = (sg, r', B')" by (cases "astep r B ch")
    show ?thesis
    proof (cases "(sg \<noteq> None \<and> fout_err (outcome sg s1)) \<or> ch = None")
      case stop: True
      then have "aloop r B s = outcome sg s1" using g False a by (subst aloop.simps) auto
      then show ?thesis using e1 by simp
    next
      case go: False
      then have "aloop r B s = aloop r' B' (outcome sg s1)"
        using g False a by (subst aloop.simps) auto
      then show ?thesis
        using "1.IH" [OF g [symmetric] False a [symmetric] refl go] e1 by simp
    qed
  qed
qed

section \<open>Claims about the decoder\<close>

text \<open>
  Claim C2. On a well-formed stream \<^verbatim>\<open>decode\<close> returns 0 and its output is the
  concatenation of the expansions of the segments, in the order of the stream: a length
  byte \<open>1 \<le> L \<le> 127\<close> takes one data byte and writes it \<open>L\<close> times, a length byte
  \<open>128 \<le> L \<le> 255\<close> takes \<open>256 - L\<close> data bytes and writes them as they are, a length
  byte 0 ends the loop and leaves the bytes behind it unread. Nothing is printed and no
  error indicator is set.
\<close>

theorem decode_segments:
  "spec_segments bs = Some (sg, rest) \<Longrightarrow>
   decode (ideal bs) = (0, (ideal rest)\<lparr>fout_data := concat (map expand sg)\<rparr>)"
proof -
  assume a: "spec_segments bs = Some (sg, rest)"
  have c: "clean (ideal bs)" by (simp add: clean_def ideal_def)
  have "decode_loop 0 (ideal bs) =
      (0, (ideal bs)\<lparr>fin_data := rest, fout_data := fout_data (ideal bs) @ concat (map expand sg)\<rparr>)"
    using decode_loop_clean [OF c refl] a by (simp add: ideal_def)
  then show ?thesis by (simp add: decode_def ideal_def)
qed

theorem decode_segments_witness:
  "spec_segments [2, 65, 255, 66, 0, 7] = Some ([Run 2 65, Literal [66]], [7]) \<and>
   decode (ideal [2, 65, 255, 66, 0, 7]) = (0, (ideal [7])\<lparr>fout_data := [65, 65, 66]\<rparr>)"
proof -
  have h: "spec_segments [2, 65, 255, 66, 0, 7] = Some ([Run 2 65, Literal [66]], [7 :: byte])"
    by simp
  show ?thesis using h decode_segments [OF h] by (simp add: numeral_2_eq_2)
qed

text \<open>
  Claim C5. On streams that are read and written without failure, \<^verbatim>\<open>decode\<close> reports
  the truncation (the message \<^verbatim>\<open>Unexpected end of stream.\<close> and the status \<^verbatim>\<open>-EIO\<close>)
  exactly when the stream ends inside a segment, that is after a length byte whose data
  bytes are not all there; a stream that ends at a segment boundary or at a terminator is
  decoded with status 0.
\<close>

theorem decode_truncation:
  "((fst (decode (ideal bs)) = - EIO \<and>
     stderr_lines (snd (decode (ideal bs))) = [''rle: Unexpected end of stream.''])
      = (spec_segments bs = None)) \<and>
   ((fst (decode (ideal bs)) = 0 \<and> stderr_lines (snd (decode (ideal bs))) = [])
      = (spec_segments bs \<noteq> None))"
proof (cases "spec_segments bs")
  case None
  have c: "clean (ideal bs)" by (simp add: clean_def ideal_def)
  obtain n i d where "decode_loop 0 (ideal bs) = (n, (ideal bs)\<lparr>fin_data := i, fout_data := d\<rparr>)"
    and "n \<noteq> 0"
    using decode_loop_clean [OF c refl] None by (auto simp: ideal_def)
  then show ?thesis using None by (simp add: decode_def ideal_def PR_ERR_def EIO_def)
next
  case (Some p)
  have c: "clean (ideal bs)" by (simp add: clean_def ideal_def)
  obtain sg rest where p: "p = (sg, rest)" by (cases p)
  have "decode_loop 0 (ideal bs) =
      (0, (ideal bs)\<lparr>fin_data := rest, fout_data := fout_data (ideal bs) @ concat (map expand sg)\<rparr>)"
    using decode_loop_clean [OF c refl] Some p by (simp add: ideal_def)
  then show ?thesis using Some by (simp add: decode_def ideal_def EIO_def)
qed

text \<open>
  Claim C6. The five bytes \<open>AABAA\<close> are encoded as \<open>02 41 FF 42 02 41\<close> (a run of two
  \<open>A\<close>, the literal \<open>B\<close>, a run of two \<open>A\<close>), and \<^verbatim>\<open>decode\<close> turns these six bytes
  back into \<open>AABAA\<close>; both calls return 0.
\<close>

theorem vector_AABAA:
  "map_option (\<lambda>(r, s). (r, fout_data s)) (encode (ideal [0x41, 0x41, 0x42, 0x41, 0x41]))
     = Some (0, [0x02, 0x41, 0xFF, 0x42, 0x02, 0x41]) \<and>
   (\<lambda>(r, s). (r, fout_data s)) (decode (ideal [0x02, 0x41, 0xFF, 0x42, 0x02, 0x41]))
     = (0, [0x41, 0x41, 0x42, 0x41, 0x41])"
  by code_simp

section \<open>Claims about the encoder\<close>

text \<open>
  Claim C1. Round trip: for every byte sequence \<open>S\<close>, \<^verbatim>\<open>encode\<close> on \<open>S\<close> returns 0, and
  \<^verbatim>\<open>decode\<close> on the bytes it wrote returns 0, has read all of them and has written exactly
  \<open>S\<close>. (Both run on streams that do not fail.)
\<close>

theorem round_trip:
  "\<exists>s1. encode (ideal S) = Some (0, s1) \<and>
     decode (ideal (fout_data s1)) = (0, (ideal [])\<lparr>fout_data := S\<rparr>)"
proof -
  let ?sgs = "aenc False [] S"
  have ok: "list_all seg_ok ?sgs" by (rule aenc_seg_ok) simp
  have ex: "concat (map expand ?sgs) = S" using aenc_expand [of False "[]" S] by simp
  have "decode (ideal (concat (map ser ?sgs))) = (0, (ideal [])\<lparr>fout_data := S\<rparr>)"
    using decode_ser [OF ok] ex by simp
  then show ?thesis using encode_ideal [of S] by (simp add: ideal_def)
qed

text \<open>
  Claim C3. For every input \<open>S\<close> the output of \<^verbatim>\<open>encode\<close> is a sequence of whole segments in
  which every run counts 2 to 127 bytes and every literal holds 1 to 128 bytes
  (\<open>seg_ok\<close>); the segments expand to \<open>S\<close>, so a longer run or literal stretch of the
  input is spread over several segments.
\<close>

theorem segment_bounds:
  "\<exists>s1 sgs. encode (ideal S) = Some (0, s1) \<and> spec_segments (fout_data s1) = Some (sgs, []) \<and>
     list_all seg_ok sgs \<and> concat (map expand sgs) = S"
proof -
  let ?sgs = "aenc False [] S"
  have ok: "list_all seg_ok ?sgs" by (rule aenc_seg_ok) simp
  have ex: "concat (map expand ?sgs) = S" using aenc_expand [of False "[]" S] by simp
  have "spec_segments (concat (map ser ?sgs)) = Some (?sgs, [])" using ok by (rule spec_segments_ser)
  then show ?thesis using encode_ideal [of S] ok ex by (simp add: ideal_def)
qed

text \<open>
  Claim C4 as stated fails: 129 equal bytes are written as a run of 127 and a run of 2 of
  the same byte, and 129 bytes without a repetition as a literal of 128 and a literal of 1.
\<close>

theorem adjacent_mergeable_segments:
  "emitted (replicate 129 0x42) = Some [Run 127 0x42, Run 2 0x42] \<and>
   \<not> no_mergeable [Run 127 0x42, Run 2 0x42] \<and>
   emitted (concat (replicate 64 [0x41, 0x42]) @ [0x41])
     = Some [Literal (concat (replicate 64 [0x41, 0x42])), Literal [0x41]] \<and>
   \<not> no_mergeable [Literal (concat (replicate 64 [0x41, 0x42])), Literal [0x41]]"
  by code_simp

text \<open>
  Claim C4, amended. In the segments written for any input, a literal is followed by a
  literal only when it holds 128 bytes, and a run is followed by a run of the same byte
  only when it counts 127.
\<close>

theorem no_joinable_segments:
  "\<exists>sgs. emitted S = Some sgs \<and> no_joinable sgs"
  using aenc_chain [of False "[]" S] by (simp add: emitted_aenc)

text \<open>
  Claim C10. \<^verbatim>\<open>encode\<close> never touches a slot outside \<^verbatim>\<open>buf[0] .. buf[0x80]\<close>, on any
  streams, failing or not: the model, which has the value \<open>None\<close> for such an access,
  always returns a result. At the head of the loop \<^verbatim>\<open>len\<close> is between 0 and 128, so it is
  at most 129 behind \<^verbatim>\<open>buf[len++] = ch\<close>; the array keeps its 129 slots; in run mode
  \<^verbatim>\<open>len\<close> is at least 2, so \<^verbatim>\<open>buf[len - 2]\<close> and \<^verbatim>\<open>buf[len - 1]\<close> are buffered bytes;
  and the next pass, whatever is read, makes no access out of range.
\<close>

theorem encode_buffer_safe:
  "encode s0 \<noteq> None \<and>
   (\<forall>e s. enc_reach s0 e s \<longrightarrow>
      0 \<le> len e \<and> len e \<le> 0x80 \<and> length (buf e) = 0x80 + 1 \<and> (repeat e \<longrightarrow> 2 \<le> len e) \<and>
      (\<forall>c. \<exists>e1. enc_store (Some c) e = Some e1 \<and> len e1 \<le> 0x80 + 1) \<and>
      (\<forall>ch s1. enc_iter ch e s1 \<noteq> None))"
proof (intro conjI allI impI)
  show "encode s0 \<noteq> None" by (simp add: encode_aloop)
next
  fix e s
  assume "enc_reach s0 e s"
  then obtain r B pad where e: "e = mkenc r B pad" and l: "length B + length pad = 0x81"
    and inv: "ainv r B" using enc_reach_mkenc by blast
  have le: "length B \<le> 0x80" using inv by (cases r) simp_all
  show "0 \<le> len e" by (simp add: e)
  show "len e \<le> 0x80" using le by (simp add: e)
  show "length (buf e) = 0x80 + 1" using l by (simp add: e)
  { assume "repeat e" then show "2 \<le> len e" using inv by (simp add: e) }
  { fix c
    show "\<exists>e1. enc_store (Some c) e = Some e1 \<and> len e1 \<le> 0x80 + 1"
      using store_mkenc [OF l le, of c r] le by (simp add: e) }
  { fix ch s1
    show "enc_iter ch e s1 \<noteq> None" unfolding e by (rule enc_iter_total [OF l inv]) }
qed

theorem encode_buffer_safe_witness:
  "enc_reach (ideal [0x41, 0x41]) (enc_init\<lparr>buf := (buf enc_init)[0 := 0x41], len := 1\<rparr>)
      (ideal [0x41]) \<and>
   len (enc_init\<lparr>buf := (buf enc_init)[0 := 0x41], len := 1\<rparr>) \<le> 0x80 \<and>
   enc_iter (Some 0x41) (enc_init\<lparr>buf := (buf enc_init)[0 := 0x41], len := 1\<rparr>) (ideal []) \<noteq> None"
proof -
  let ?s0 = "ideal [0x41, 0x41]"
  let ?e1 = "enc_init\<lparr>buf := (buf enc_init)[0 := 0x41], len := 1\<rparr>"
  have g: "fgetc ?s0 = (Some 0x41, ideal [0x41])"
    by (simp add: fgetc_def ideal_def count_get_def failed_def)
  have i: "enc_iter (Some 0x41) enc_init (ideal [0x41]) = Some (False, ?e1, ideal [0x41])"
    by (simp add: enc_iter_def enc_store_def enc_lit_def enc_init_def in_buf_def ideal_def)
  have r: "enc_reach ?s0 ?e1 (ideal [0x41])"
    by (rule enc_reach.pass [OF enc_reach.start g i])
  show ?thesis using r encode_buffer_safe [of ?s0] by blast
qed

section \<open>Claims about the status and about failures\<close>






section \<open>Claim about the exit status\<close>

text \<open>
  Claim C9. When \<^verbatim>\<open>main\<close> arrives at its last \<^verbatim>\<open>return\<close> with the result code \<open>ret\<close>, the
  exit status is \<^verbatim>\<open>EXIT_SUCCESS\<close> exactly when \<open>ret\<close> is not 0, and \<^verbatim>\<open>EXIT_FAILURE\<close>
  exactly when \<open>ret\<close> is 0, which is the case exactly when the codec operation was reached
  and returned 0 and the input file was kept or removed. The error number of a failed
  \<^verbatim>\<open>unlink\<close> is positive, as POSIX has it.
\<close>

theorem main_exit_inverted:
  assumes "main_ret env = Some (Inr ret)" and "\<forall>e. unlink_in env = Some e \<longrightarrow> 0 < e"
  shows "(main env = Some EXIT_SUCCESS) = (ret \<noteq> 0) \<and>
         (main env = Some EXIT_FAILURE) = (ret = 0) \<and>
         (ret = 0) = succeeded env"
proof -
  have m: "(main env = Some EXIT_SUCCESS) = (ret \<noteq> 0)" "(main env = Some EXIT_FAILURE) = (ret = 0)"
    using assms(1) by (simp_all add: main_def)
  obtain v where v: "getopt_loop (opt_chars env) main_vars0 = Inr v"
    using assms(1) by (auto simp: main_ret_def split: sum.splits)
  have "(ret = 0) = succeeded env"
  proof (cases "reaches_op env v")
    case False
    then show ?thesis using assms(1) v by (auto simp: main_ret_def succeeded_def EINVAL_def)
  next
    case True
    then obtain r s' where r: "run_op env v = Some (r, s')"
      using assms(1) v by (auto simp: main_ret_def split: option.splits)
    show ?thesis
      using assms True v r by (auto simp: main_ret_def succeeded_def split: option.splits if_splits)
  qed
  then show ?thesis using m by simp
qed

theorem main_exit_inverted_witness:
  "main_ret env0 = Some (Inr 0) \<and> succeeded env0 \<and> main env0 = Some EXIT_FAILURE \<and>
   main_ret (env0\<lparr>streams := ideal [2]\<rparr>) = Some (Inr (- EIO)) \<and>
   main (env0\<lparr>streams := ideal [2]\<rparr>) = Some EXIT_SUCCESS"
proof -
  have a: "main_ret env0 = Some (Inr 0)" by code_simp
  have b: "main_ret (env0\<lparr>streams := ideal [2]\<rparr>) = Some (Inr (- EIO))" by code_simp
  have u: "\<forall>e. unlink_in env0 = Some e \<longrightarrow> 0 < e"
    "\<forall>e. unlink_in (env0\<lparr>streams := ideal [2]\<rparr>) = Some e \<longrightarrow> 0 < e"
    by (simp_all add: env0_def)
  have ne: "- EIO \<noteq> 0" by (simp add: EIO_def)
  show ?thesis
    using main_exit_inverted [OF a u(1)] main_exit_inverted [OF b u(2)] a b ne by simp
qed

end
